theory Spec2Isabelle
  imports Main "HOL-Library.Multiset"
begin

section \<open>Data model of \<open>torch_mlu/profiler/_utils.py\<close>\<close>

text \<open>
  A CPU-side event of the profiler's event tree, with the attributes the module reads:
  \<open>id\<close>, \<open>name\<close>, \<open>start_time_ns\<close>, \<open>end_time_ns\<close>, \<open>duration_time_ns\<close> and the
  ordered list \<open>children\<close>. Python's integers are unbounded, hence \<open>int\<close>.
\<close>

datatype event = Event
  (ev_id: nat) (ev_name: string)
  (start_time_ns: int) (end_time_ns: int) (ev_duration_time_ns: int)
  (children: "event list")

text \<open>
  \<open>EventMetrics\<close> is imported from \<open>torch.profiler._utils\<close>: a record of four fields.
  The module constructs it as \<open>EventMetrics(self_time_ns=self_time)\<close>; the values the
  other fields take then are the constructor's defaults, which the model receives as a
  parameter \<open>dflt\<close>.
\<close>

record event_metrics =
  duration_time_ns :: int
  self_time_ns :: int
  idle_time_ns :: int
  queue_depth :: int

definition EventMetrics :: "event_metrics \<Rightarrow> int \<Rightarrow> event_metrics" where
  "EventMetrics dflt self_time = dflt\<lparr>self_time_ns := self_time\<rparr>"

text \<open>
  \<open>self.metrics\<close> is a dict from \<open>EventKey\<close> to \<open>EventMetrics\<close>. Python dicts keep the
  insertion order and \<open>rank_events\<close> iterates over the keys, so the dict is an association
  list in insertion order; a key is the wrapped event.
\<close>

type_synonym metrics = "(event \<times> event_metrics) list"

text \<open>
  Modelled from the spec: \<open>EventKey\<close> is imported from \<open>torch.profiler._utils\<close>; it "wraps
  a CPU-tree event to give it value-equality/hashability" on "the event's identity", the
  \<open>id\<close> that the assertion message of \<open>compute_self_time\<close> prints. Two keys are equal when
  the ids of their events are; \<open>key_in\<close> is \<open>EventKey(e) in self.metrics\<close> and
  \<open>metrics_get\<close> is \<open>self.metrics[EventKey(e)]\<close>, with \<open>None\<close> for Python's \<open>KeyError\<close>.
\<close>

definition key_in :: "event \<Rightarrow> metrics \<Rightarrow> bool" where
  "key_in e m = (ev_id e \<in> set (map (ev_id \<circ> fst) m))"

fun metrics_get :: "metrics \<Rightarrow> event \<Rightarrow> event_metrics option" where
  "metrics_get [] e = None"
| "metrics_get ((k, v) # m) e = (if ev_id k = ev_id e then Some v else metrics_get m e)"

text \<open>\<open>self.metrics[EventKey(e)] = v\<close>: replaces the value of an equal key in place, and
  appends a new key at the end.\<close>

fun metrics_set :: "metrics \<Rightarrow> event \<Rightarrow> event_metrics \<Rightarrow> metrics" where
  "metrics_set [] e v = [(e, v)]"
| "metrics_set ((k, w) # m) e v =
     (if ev_id k = ev_id e then (k, v) # m else (k, w) # metrics_set m e v)"

text \<open>The device-timeline events (\<open>_KinetoEvent\<close>) and the trace object.  A
  \<open>_KinetoEvent\<close> is hashed and compared as an object, so the model gives it the field
  \<open>obj\<close>, its object identity.\<close>

datatype DeviceType = CPU | CUDA | MLU | PrivateUse1

record kineto_event =
  obj :: nat
  k_name :: string
  device_type :: DeviceType
  start_us :: int
  duration_us :: int
  linked_correlation_id :: int

record kineto_results =
  experimental_event_tree :: "event list"
  kr_events :: "kineto_event list"

record profile =
  kineto_results :: "kineto_results option"

datatype error =
    Kineto_results_is_None
  | Duplicate_id nat string
  | KeyError nat
  | Torch_error

section \<open>\<open>compute_self_time\<close>\<close>

text \<open>
  The inner \<open>for\<close> loop over \<open>curr_event.children\<close>: each child's duration is subtracted
  from \<open>self_time\<close> and the child is pushed on the stack. The stack (a deque popped at
  its right end) is written top first: the head of the list is the right end of the
  deque.
\<close>

fun visit_children :: "event list \<Rightarrow> int \<Rightarrow> event list \<Rightarrow> int \<times> event list" where
  "visit_children [] self_time stack = (self_time, stack)"
| "visit_children (child_event # cs) self_time stack =
     visit_children cs (self_time - ev_duration_time_ns child_event) (child_event # stack)"

lemma visit_children_eq:
  "visit_children cs self_time stack =
     (self_time - sum_list (map ev_duration_time_ns cs), rev cs @ stack)"
  by (induction cs arbitrary: self_time stack) auto

definition stack_size :: "event list \<Rightarrow> nat" where
  "stack_size stack = sum_list (map size stack)"

lemma size_children: "sum_list (map size (children e)) < size e"
proof (cases e)
  case (Event i n s t d cs)
  have "sum_list (map size cs) \<le> size_list size cs"
    by (induction cs) auto
  with Event show ?thesis by simp
qed

function self_time_loop :: "event_metrics \<Rightarrow> event list \<Rightarrow> metrics \<Rightarrow> error + metrics" where
  "self_time_loop dflt [] m = Inr m"
| "self_time_loop dflt (curr_event # stack) m =
     (case visit_children (children curr_event) (ev_duration_time_ns curr_event) stack of
        (self_time, stack') \<Rightarrow>
          if key_in curr_event m
          then Inl (Duplicate_id (ev_id curr_event) (ev_name curr_event))
          else self_time_loop dflt stack'
                 (metrics_set
                    (metrics_set m curr_event (EventMetrics dflt self_time))
                    curr_event
                    ((the (metrics_get
                        (metrics_set m curr_event (EventMetrics dflt self_time)) curr_event))
                      \<lparr>duration_time_ns := ev_duration_time_ns curr_event\<rparr>)))"
  by pat_completeness auto
termination
proof (relation "measure (\<lambda>(dflt, stack, m). stack_size stack)", goal_cases)
  case 1
  show ?case by simp
next
  case (2 dflt curr_event stack m self_time stack')
  then have "stack' = rev (children curr_event) @ stack"
    by (simp add: visit_children_eq)
  then show ?case
    using size_children [of curr_event]
    by (simp add: stack_size_def rev_map [symmetric] del: rev_map)
qed

definition compute_self_time :: "event_metrics \<Rightarrow> profile \<Rightarrow> metrics \<Rightarrow> error + metrics" where
  "compute_self_time dflt prof m =
     (case kineto_results prof of
        None \<Rightarrow> Inl Kineto_results_is_None
      | Some kr \<Rightarrow> self_time_loop dflt (rev (experimental_event_tree kr)) m)"

section \<open>\<open>compute_queue_depth\<close>\<close>

text \<open>
  \<open>Interval\<close> is imported from \<open>torch.profiler._utils\<close>: \<open>start\<close>, \<open>end\<close> and the
  queue-depth payload. \<open>Interval(start, end)\<close> leaves the payload at the constructor's
  default, which nothing in this module reads; \<open>Interval2\<close> writes 0 there.
\<close>

record interval =
  iv_start :: int
  iv_end :: int
  iv_queue_depth :: int

definition Interval :: "int \<Rightarrow> int \<Rightarrow> int \<Rightarrow> interval" where
  "Interval s e d = \<lparr>iv_start = s, iv_end = e, iv_queue_depth = d\<rparr>"

definition Interval2 :: "int \<Rightarrow> int \<Rightarrow> interval" where
  "Interval2 s e = \<lparr>iv_start = s, iv_end = e, iv_queue_depth = 0\<rparr>"

text \<open>\<open>str.lower\<close> on the ASCII letters, and the substring test \<open>sub in s\<close>.\<close>

definition lower_char :: "char \<Rightarrow> char" where
  "lower_char c =
     (let n = (of_char c :: nat) in if 65 \<le> n \<and> n \<le> 90 then char_of (n + 32) else c)"

definition lower :: "string \<Rightarrow> string" where
  "lower s = map lower_char s"

fun contains :: "string \<Rightarrow> string \<Rightarrow> bool" where
  "contains sub [] = (sub = [])"
| "contains sub (c # cs) = (take (length sub) (c # cs) = sub \<or> contains sub cs)"

definition is_mlu_launch_kernel :: "kineto_event \<Rightarrow> bool" where
  "is_mlu_launch_kernel e = (k_name e = ''cnInvokeKernel'')"

definition is_mlu_kernel :: "kineto_event \<Rightarrow> bool" where
  "is_mlu_kernel e = (device_type e = MLU \<and> \<not> contains ''mem'' (lower (k_name e)))"

text \<open>
  Modelled from the spec: \<open>index_of_first_match\<close> is imported from
  \<open>torch.profiler._utils\<close>; it finds "the first [element], at or after [the] search
  cursor" \<open>start\<close> that satisfies the predicate and gives its index, and "if no match is
  found" it gives "no index" (\<open>None\<close>).
\<close>

definition index_of_first_match :: "'a list \<Rightarrow> ('a \<Rightarrow> bool) \<Rightarrow> nat \<Rightarrow> nat option" where
  "index_of_first_match seq predicate start =
     find (\<lambda>i. predicate (seq ! i)) [start..<length seq]"

text \<open>
  The correlation loop over \<open>mlu_launch_events\<close>. \<open>kernel_mapping\<close> is a dict keyed by
  the launch objects, with values an index or \<open>None\<close>.
\<close>

type_synonym kernel_mapping = "nat \<rightharpoonup> nat option"

fun correlate ::
  "kineto_event list \<Rightarrow> kineto_event list \<Rightarrow> kernel_mapping \<Rightarrow> nat \<Rightarrow> kernel_mapping \<times> nat"
where
  "correlate mlu_kernel_events [] kernel_mapping last_mapped_kernel =
     (kernel_mapping, last_mapped_kernel)"
| "correlate mlu_kernel_events (mlu_launch_event # ls) kernel_mapping last_mapped_kernel =
     (let index = index_of_first_match mlu_kernel_events
                    (\<lambda>x. linked_correlation_id x = linked_correlation_id mlu_launch_event)
                    last_mapped_kernel
      in correlate mlu_kernel_events ls
           (kernel_mapping(obj mlu_launch_event \<mapsto> index))
           (case index of Some i \<Rightarrow> i | None \<Rightarrow> last_mapped_kernel))"

text \<open>
  \<open>all_events\<close> holds events of two shapes, told apart by \<open>hasattr\<close>: device events
  (with \<open>start_us\<close>) and tree events (with \<open>start_time_ns\<close>). The type has no third
  shape, so the \<open>raise Exception("Unknown Event Type")\<close> of the comparator has no branch.
\<close>

datatype any_event = Device kineto_event | Tree event

fun new_old_event_comparator :: "any_event \<Rightarrow> int" where
  "new_old_event_comparator (Device e) = start_us e * 1000"
| "new_old_event_comparator (Tree e) = start_time_ns e"

text \<open>The inner \<open>while\<close> loop that advances \<open>current_kernel_index\<close>.\<close>

function advance :: "kineto_event list \<Rightarrow> nat \<Rightarrow> int \<Rightarrow> nat" where
  "advance mlu_kernel_events current_kernel_index start_time =
     (if current_kernel_index < length mlu_kernel_events \<and>
         start_us (mlu_kernel_events ! current_kernel_index) * 1000 \<le> start_time
      then advance mlu_kernel_events (Suc current_kernel_index) start_time
      else current_kernel_index)"
  by pat_completeness auto
termination
  by (relation "measure (\<lambda>(ks, i, t). length ks - i)") auto

declare advance.simps [simp del]

text \<open>
  The sweep over \<open>all_events\<close>, with the loop's variables \<open>current_kernel_index\<close>,
  \<open>spawned_kernel_index\<close>, \<open>queue_depth_list\<close> and the metrics as arguments. Writing the
  queue depth of a tree event that has no metrics record is Python's \<open>KeyError\<close>.
\<close>

fun sweep ::
  "kineto_event list \<Rightarrow> kernel_mapping \<Rightarrow> any_event list \<Rightarrow> nat \<Rightarrow> int \<Rightarrow>
     interval list \<Rightarrow> metrics \<Rightarrow> error + interval list \<times> metrics"
where
  "sweep ks km [] current_kernel_index spawned_kernel_index queue_depth_list m =
     Inr (queue_depth_list, m)"
| "sweep ks km (Device event # es) current_kernel_index spawned_kernel_index queue_depth_list m =
     (let start_time = start_us event * 1000;
          end_time = (start_us event + duration_us event) * 1000;
          spawned = (case km (obj event) of
                       Some (Some i) \<Rightarrow> int i
                     | _ \<Rightarrow> spawned_kernel_index);
          current = advance ks current_kernel_index start_time;
          current_queue_depth = max (spawned - int current + 1) 0
      in sweep ks km es current spawned
           (queue_depth_list @ [Interval start_time end_time current_queue_depth]) m)"
| "sweep ks km (Tree event # es) current_kernel_index spawned_kernel_index queue_depth_list m =
     (let start_time = start_time_ns event;
          current = advance ks current_kernel_index start_time;
          current_queue_depth = max (spawned_kernel_index - int current + 1) 0
      in case metrics_get m event of
           None \<Rightarrow> Inl (KeyError (ev_id event))
         | Some v \<Rightarrow>
             sweep ks km es current spawned_kernel_index queue_depth_list
               (metrics_set m event (v\<lparr>queue_depth := current_queue_depth\<rparr>)))"

text \<open>
  \<open>compute_queue_depth\<close> reads \<open>self.profile\<close>, \<open>self.events\<close> and \<open>self.metrics\<close>; it
  returns \<open>self.mlu_events\<close>, the queue-depth list and the updated metrics. Python's
  \<open>sorted\<close> and \<open>list.sort\<close> are stable, as \<open>sort_key\<close> is.
\<close>

definition mlu_launch_events_of :: "kineto_event list \<Rightarrow> kineto_event list" where
  "mlu_launch_events_of mlu_event_list =
     sort_key start_us (filter is_mlu_launch_kernel mlu_event_list)"

definition mlu_kernel_events_of :: "kineto_event list \<Rightarrow> kineto_event list" where
  "mlu_kernel_events_of mlu_event_list =
     sort_key start_us (filter is_mlu_kernel mlu_event_list)"

definition all_events_of :: "kineto_event list \<Rightarrow> event list \<Rightarrow> any_event list" where
  "all_events_of mlu_event_list events =
     sort_key new_old_event_comparator
       (map Device (mlu_launch_events_of mlu_event_list) @
        map Device (mlu_kernel_events_of mlu_event_list) @ map Tree events)"

definition compute_queue_depth ::
  "profile \<Rightarrow> event list \<Rightarrow> metrics \<Rightarrow> error + kineto_event list \<times> interval list \<times> metrics"
where
  "compute_queue_depth prof events m =
     (case kineto_results prof of
        None \<Rightarrow> Inl Kineto_results_is_None
      | Some kr \<Rightarrow>
          (let mlu_event_list = kr_events kr;
               mlu_launch_events = mlu_launch_events_of mlu_event_list;
               mlu_kernel_events = mlu_kernel_events_of mlu_event_list;
               mlu_events = sort_key start_us (mlu_launch_events @ mlu_kernel_events);
               kernel_mapping = fst (correlate mlu_kernel_events mlu_launch_events Map.empty 0)
           in case sweep mlu_kernel_events kernel_mapping
                     (all_events_of mlu_event_list events) 0 (- 1) [] m of
                Inl err \<Rightarrow> Inl err
              | Inr (queue_depth_list, m') \<Rightarrow> Inr (mlu_events, queue_depth_list, m')))"

section \<open>\<open>compute_idle_time\<close>\<close>

text \<open>
  The scan over \<open>self.queue_depth_list\<close>, with the loop's variables \<open>idle\<close>,
  \<open>idle_start\<close> and \<open>idle_intervals\<close> as arguments; the two \<open>if\<close>s run one after the
  other, as in the source.
\<close>

fun idle_scan :: "interval list \<Rightarrow> bool \<Rightarrow> int \<Rightarrow> interval list \<Rightarrow> interval list" where
  "idle_scan [] idle idle_start idle_intervals = idle_intervals"
| "idle_scan (data_point # dps) idle idle_start idle_intervals =
     (let (idle_start1, idle1) =
            (if iv_queue_depth data_point = 0 \<and> \<not> idle
             then (iv_end data_point, True) else (idle_start, idle));
          (idle_intervals2, idle2) =
            (if iv_queue_depth data_point > 0 \<and> idle1
             then (idle_intervals @ [Interval2 idle_start1 (iv_start data_point)], False)
             else (idle_intervals, idle1))
      in idle_scan dps idle2 idle_start1 idle_intervals2)"

definition boundary_intervals :: "interval list \<Rightarrow> event list \<Rightarrow> interval list" where
  "boundary_intervals queue_depth_list events =
     (if queue_depth_list \<noteq> [] \<and> events \<noteq> []
      then [Interval2 (start_time_ns (hd events)) (iv_start (hd queue_depth_list)),
            Interval2 (iv_end (last queue_depth_list)) (end_time_ns (last events))]
      else [])"

definition idle_intervals_of :: "interval list \<Rightarrow> event list \<Rightarrow> interval list" where
  "idle_intervals_of queue_depth_list events =
     idle_scan queue_depth_list False 0 (boundary_intervals queue_depth_list events)"

text \<open>
  Modelled from the spec: \<open>intervals_overlap\<close> is a method of \<open>EventKey\<close> in
  \<open>torch.profiler._utils\<close>; "given a list of time intervals, [it] returns the total
  nanoseconds of overlap between the wrapped event's [start,end) span and the union of
  supplied intervals". The intervals are taken in the order of their starts, and
  \<open>covered\<close> is the time up to which earlier intervals were counted.
\<close>

fun overlap_from :: "int \<Rightarrow> int \<Rightarrow> interval list \<Rightarrow> int" where
  "overlap_from covered event_end [] = 0"
| "overlap_from covered event_end (iv # ivs) =
     (let overlap_start = max covered (iv_start iv);
          overlap_end = min event_end (iv_end iv)
      in (if overlap_start < overlap_end then overlap_end - overlap_start else 0) +
         overlap_from (max covered (iv_end iv)) event_end ivs)"

definition intervals_overlap :: "event \<Rightarrow> interval list \<Rightarrow> int" where
  "intervals_overlap e intervals =
     overlap_from (start_time_ns e) (end_time_ns e) (sort_key iv_start intervals)"

text \<open>The last loop of \<open>compute_idle_time\<close>, over the events of the metrics' keys.\<close>

fun store_idle_time :: "interval list \<Rightarrow> event list \<Rightarrow> metrics \<Rightarrow> error + metrics" where
  "store_idle_time idle_intervals [] m = Inr m"
| "store_idle_time idle_intervals (event # es) m =
     (case metrics_get m event of
        None \<Rightarrow> Inl (KeyError (ev_id event))
      | Some v \<Rightarrow>
          store_idle_time idle_intervals es
            (metrics_set m event (v\<lparr>idle_time_ns := intervals_overlap event idle_intervals\<rparr>)))"

definition compute_idle_time :: "interval list \<Rightarrow> event list \<Rightarrow> metrics \<Rightarrow> error + metrics" where
  "compute_idle_time queue_depth_list events m =
     store_idle_time (idle_intervals_of queue_depth_list events) (map fst m) m"

section \<open>\<open>rank_events\<close>\<close>

text \<open>
  Modelled from the spec: \<open>argmax\<close> is imported from \<open>torch.profiler._utils\<close>; it gives
  the position of the "peak (maximum depth value before the next point where depth
  returns \<open>\<le> 0\<close>)", that is of the maximum of \<open>seq[start:end]\<close>, the first one when several
  positions hold it, and "no index" when the slice is empty. \<open>end = None\<close> is the end of
  the list.
\<close>

definition argmax :: "int list \<Rightarrow> nat \<Rightarrow> nat option \<Rightarrow> nat option" where
  "argmax seq start end' =
     (let sl = (case end' of None \<Rightarrow> drop start seq | Some e \<Rightarrow> drop start (take e seq))
      in if sl = [] then None
         else Some (length (takeWhile (\<lambda>x. x \<noteq> fold max sl (hd sl)) sl) + start))"

text \<open>
  The inner \<open>for j in range(i + 1, len(qd_values))\<close> loop: at the first \<open>j\<close> with a
  valid peak it gives the decrease interval and the new value of \<open>i\<close> and breaks;
  \<open>None\<close> when it runs to its end. \<open>bottom_threashold\<close> is 0 and \<open>top_threashold\<close> is 4.
\<close>

fun find_peak ::
  "interval list \<Rightarrow> int list \<Rightarrow> nat \<Rightarrow> nat list \<Rightarrow> (interval \<times> nat) option"
where
  "find_peak queue_depth_list qd_values i [] = None"
| "find_peak queue_depth_list qd_values i (j # js) =
     (let next_minimum_idx = index_of_first_match qd_values (\<lambda>x. x \<le> 0) j;
          peak_idx = argmax qd_values j next_minimum_idx
      in case peak_idx of
           None \<Rightarrow> find_peak queue_depth_list qd_values i js
         | Some p \<Rightarrow>
             if qd_values ! p \<ge> 4
             then Some (Interval2 (iv_start (queue_depth_list ! p))
                          (iv_start (queue_depth_list ! i)),
                        case next_minimum_idx of Some n \<Rightarrow> n | None \<Rightarrow> i)
             else find_peak queue_depth_list qd_values i js)"

lemma index_of_first_match_ge:
  "index_of_first_match seq P start = Some n \<Longrightarrow> start \<le> n"
  by (auto simp: index_of_first_match_def find_Some_iff)

lemma find_peak_ge:
  "find_peak queue_depth_list qd_values i js = Some (iv, i') \<Longrightarrow>
   \<forall>j \<in> set js. i \<le> j \<Longrightarrow> i \<le> i'"
proof (induction js)
  case Nil
  then show ?case by simp
next
  case (Cons j js)
  then show ?case
    by (auto simp: Let_def split: option.splits if_splits dest: index_of_first_match_ge)
qed

text \<open>The outer \<open>while (i < len(qd_values))\<close> loop, with \<open>i\<close> and \<open>decrease_interval\<close>.\<close>

function decrease_loop ::
  "interval list \<Rightarrow> int list \<Rightarrow> nat \<Rightarrow> interval list \<Rightarrow> interval list"
where
  "decrease_loop queue_depth_list qd_values i decrease_interval =
     (if i < length qd_values
      then if qd_values ! i > 0
           then decrease_loop queue_depth_list qd_values (Suc i) decrease_interval
           else (case find_peak queue_depth_list qd_values i [Suc i..<length qd_values] of
                   None \<Rightarrow> decrease_loop queue_depth_list qd_values (Suc i) decrease_interval
                 | Some (iv, i') \<Rightarrow>
                     decrease_loop queue_depth_list qd_values (Suc i')
                       (decrease_interval @ [iv]))
      else decrease_interval)"
  by pat_completeness auto
termination
proof (relation "measure (\<lambda>(q, v, i, d). length v - i)", goal_cases)
  case 1
  show ?case by simp
next
  case (2 queue_depth_list qd_values i decrease_interval)
  then show ?case by simp
next
  case (3 queue_depth_list qd_values i decrease_interval)
  then show ?case by simp
next
  case (4 queue_depth_list qd_values i decrease_interval x iv i')
  then have "i \<le> i'"
    using find_peak_ge [of queue_depth_list qd_values i "[Suc i..<length qd_values]" iv i']
    by simp
  with 4 show ?case by simp
qed

declare decrease_loop.simps [simp del]

definition decrease_interval_of :: "interval list \<Rightarrow> interval list" where
  "decrease_interval_of self_queue_depth_list =
     (let queue_depth_list = rev self_queue_depth_list;
          qd_values = map iv_queue_depth queue_depth_list
      in decrease_loop queue_depth_list qd_values 0 [])"

text \<open>
  The analysis object: the fields that \<open>__init__\<close> sets, and \<open>__init__\<close> itself, which runs
  the three passes in order; an exception of a pass leaves no object.
\<close>

record basic_evaluation =
  self_profile :: profile
  self_metrics :: metrics
  self_event_keys :: "event list"
  self_events :: "event list"
  self_mlu_events :: "kineto_event list"
  self_queue_depth_list :: "interval list"

definition init :: "event_metrics \<Rightarrow> profile \<Rightarrow> error + basic_evaluation" where
  "init dflt prof =
     (case compute_self_time dflt prof [] of
        Inl err \<Rightarrow> Inl err
      | Inr m1 \<Rightarrow>
          (let event_keys = sort_key start_time_ns (map fst m1);
               events = event_keys
           in case compute_queue_depth prof events m1 of
                Inl err \<Rightarrow> Inl err
              | Inr (mlu_events, queue_depth_list, m2) \<Rightarrow>
                  (case compute_idle_time queue_depth_list events m2 of
                     Inl err \<Rightarrow> Inl err
                   | Inr m3 \<Rightarrow>
                       Inr \<lparr>self_profile = prof, self_metrics = m3,
                            self_event_keys = event_keys, self_events = events,
                            self_mlu_events = mlu_events,
                            self_queue_depth_list = queue_depth_list\<rparr>)))"

text \<open>
  The events that survive the filter of \<open>rank_events\<close>, each with its metrics record (the
  value \<open>self.metrics[event]\<close> of a key is the one stored with it). The test is the
  truth value of the integer that \<open>intervals_overlap\<close> returns.
\<close>

definition event_list_of :: "basic_evaluation \<Rightarrow> (event \<times> event_metrics) list" where
  "event_list_of self =
     filter (\<lambda>(event, v).
         intervals_overlap event (decrease_interval_of (self_queue_depth_list self)) \<noteq> 0)
       (self_metrics self)"

text \<open>\<open>xs[:n]\<close> for an integer \<open>n\<close>: a negative \<open>n\<close> counts from the end.\<close>

definition slice_to :: "int \<Rightarrow> 'a list \<Rightarrow> 'a list" where
  "slice_to n xs = (if 0 \<le> n then take (nat n) xs else take (length xs - nat (- n)) xs)"

text \<open>
  The scores of \<open>rank_events\<close> are \<open>float32\<close> tensors, and \<open>torch\<close> is no part of this
  module: its operations are parameters of the model, over a type \<open>'f\<close> of float values.
  \<open>torch.mean\<close>, \<open>torch.std\<close> and the division may each raise (\<open>Inl\<close>), so that the
  model shows where the code runs them and where a guard keeps it from running them.
  \<open>torch_tensor\<close> is the conversion of \<open>self_time_ns\<close> by
  \<open>torch.tensor(..., dtype=torch.float32)\<close>; \<open>fraction_idle_time\<close> is the property of
  \<open>EventMetrics\<close> (imported from \<open>torch.profiler._utils\<close>), converted likewise;
  \<open>torch_add_scaled g s\<close> is \<open>g + 0.6 * s\<close>; \<open>tensor_lt\<close> is the truth value of \<open><\<close> on two
  scores, the one comparison that a sort makes.
\<close>

record 'f torch_ops =
  torch_tensor :: "int \<Rightarrow> 'f"
  fraction_idle_time :: "event_metrics \<Rightarrow> 'f"
  torch_mean :: "'f list \<Rightarrow> error + 'f"
  torch_std :: "'f list \<Rightarrow> error + 'f"
  torch_sub :: "'f \<Rightarrow> 'f \<Rightarrow> 'f"
  torch_div :: "'f \<Rightarrow> 'f \<Rightarrow> error + 'f"
  torch_add_scaled :: "'f \<Rightarrow> 'f \<Rightarrow> 'f"
  tensor_lt :: "'f \<Rightarrow> 'f \<Rightarrow> bool"

text \<open>The division of every element of a tensor by a scalar.\<close>

fun div_each :: "'f torch_ops \<Rightarrow> 'f list \<Rightarrow> 'f \<Rightarrow> error + 'f list" where
  "div_each ops [] sd = Inr []"
| "div_each ops (x # xs) sd =
     (case torch_div ops x sd of
        Inl err \<Rightarrow> Inl err
      | Inr q \<Rightarrow>
          (case div_each ops xs sd of
             Inl err \<Rightarrow> Inl err
           | Inr qs \<Rightarrow> Inr (q # qs)))"

text \<open>\<open>(x - torch.mean(x)) / torch.std(x)\<close>, the operands evaluated from left to right.\<close>

definition standardize :: "'f torch_ops \<Rightarrow> 'f list \<Rightarrow> error + 'f list" where
  "standardize ops x =
     (case torch_mean ops x of
        Inl err \<Rightarrow> Inl err
      | Inr mu \<Rightarrow>
          (case torch_std ops x of
             Inl err \<Rightarrow> Inl err
           | Inr sd \<Rightarrow> div_each ops (map (\<lambda>a. torch_sub ops a mu) x) sd))"

text \<open>Lines 220 to 230: the two tensors, their standardization and the scores.\<close>

definition heuristic_score_list ::
  "'f torch_ops \<Rightarrow> (event \<times> event_metrics) list \<Rightarrow> error + 'f list"
where
  "heuristic_score_list ops event_list =
     (let self_time = map (\<lambda>(event, v). torch_tensor ops (self_time_ns v)) event_list;
          idle_time = map (\<lambda>(event, v). fraction_idle_time ops v) event_list
      in case standardize ops idle_time of
           Inl err \<Rightarrow> Inl err
         | Inr normalized_gain \<Rightarrow>
             (case standardize ops self_time of
                Inl err \<Rightarrow> Inl err
              | Inr normalized_self \<Rightarrow>
                  Inr (map2 (torch_add_scaled ops) normalized_gain normalized_self)))"

text \<open>
  \<open>sorted(..., key=lambda x: x[0], reverse=True)\<close>: Python's sort is stable, compares
  keys with \<open><\<close> only and, with \<open>reverse=True\<close>, puts the greater keys first. The model
  is a stable insertion sort on \<open><\<close>. It yields the list that Python's sort yields
  whenever \<open><\<close> orders the keys, and whenever no two keys compare (as between \<open>nan\<close>
  scores, where both leave the list as it is); for other outcomes of \<open><\<close> the two agree
  on the elements of the result, not on their order.
\<close>

fun insert_reverse :: "('f \<Rightarrow> 'f \<Rightarrow> bool) \<Rightarrow> 'f \<times> 'a \<Rightarrow> ('f \<times> 'a) list \<Rightarrow> ('f \<times> 'a) list" where
  "insert_reverse lt x [] = [x]"
| "insert_reverse lt x (y # ys) =
     (if lt (fst x) (fst y) then y # insert_reverse lt x ys else x # y # ys)"

definition sorted_reverse :: "('f \<Rightarrow> 'f \<Rightarrow> bool) \<Rightarrow> ('f \<times> 'a) list \<Rightarrow> ('f \<times> 'a) list" where
  "sorted_reverse lt xs = foldr (insert_reverse lt) xs []"

text \<open>
  \<open>rank_events\<close>: the scores are computed, and the list sorted and cut, under the one
  test \<open>if event_list:\<close>; an exception of a \<open>torch\<close> operation leaves the method.
\<close>

definition rank_events :: "'f torch_ops \<Rightarrow> basic_evaluation \<Rightarrow> int \<Rightarrow> error + event list" where
  "rank_events ops self length' =
     (let event_list = event_list_of self
      in if event_list \<noteq> []
         then (case heuristic_score_list ops event_list of
                 Inl err \<Rightarrow> Inl err
               | Inr scores \<Rightarrow>
                   Inr (slice_to length'
                          (map snd (sorted_reverse (tensor_lt ops)
                                      (zip scores (map fst event_list))))))
         else Inr [])"

section \<open>Self time: the traversal and what it records\<close>

lemma size_child: "x \<in> set (children e) \<Longrightarrow> size x < size e"
proof -
  assume "x \<in> set (children e)"
  then have "size x \<le> sum_list (map size (children e))"
    by (simp add: member_le_sum_list)
  with size_children [of e] show ?thesis by simp
qed

text \<open>
  \<open>visit_order e\<close> is the order in which the loop of \<open>compute_self_time\<close> visits
  \<open>e\<close> and its descendants (the last child first, since children are pushed in order and
  popped from the same end); \<open>subtree e\<close> is \<open>e\<close> with all of its descendants.
\<close>

function visit_order :: "event \<Rightarrow> event list" where
  "visit_order e = e # concat (map visit_order (rev (children e)))"
  by pat_completeness auto
termination
  by (relation "measure size") (auto simp: size_child)

function subtree :: "event \<Rightarrow> event list" where
  "subtree e = e # concat (map subtree (children e))"
  by pat_completeness auto
termination
  by (relation "measure size") (auto simp: size_child)

declare visit_order.simps [simp del] subtree.simps [simp del]

definition self_time_of :: "event \<Rightarrow> int" where
  "self_time_of e = ev_duration_time_ns e - sum_list (map ev_duration_time_ns (children e))"

definition entry :: "event_metrics \<Rightarrow> event \<Rightarrow> event \<times> event_metrics" where
  "entry dflt e =
     (e, dflt\<lparr>self_time_ns := self_time_of e, duration_time_ns := ev_duration_time_ns e\<rparr>)"

fun first_dup :: "nat list \<Rightarrow> event list \<Rightarrow> event option" where
  "first_dup seen [] = None"
| "first_dup seen (e # es) =
     (if ev_id e \<in> set seen then Some e else first_dup (seen @ [ev_id e]) es)"

lemma metrics_set_new:
  "\<not> key_in e m \<Longrightarrow> metrics_set m e v = m @ [(e, v)]"
  by (induction m) (auto simp: key_in_def)

lemma metrics_set_last:
  "\<not> key_in e m \<Longrightarrow> metrics_set (m @ [(e, v)]) e w = m @ [(e, w)]"
  by (induction m) (auto simp: key_in_def)

lemma metrics_get_last:
  "\<not> key_in e m \<Longrightarrow> metrics_get (m @ [(e, v)]) e = Some v"
  by (induction m) (auto simp: key_in_def)

lemma self_time_loop_char:
  "self_time_loop dflt stack m =
     (case first_dup (map (ev_id \<circ> fst) m) (concat (map visit_order stack)) of
        None \<Rightarrow> Inr (m @ map (entry dflt) (concat (map visit_order stack)))
      | Some e \<Rightarrow> Inl (Duplicate_id (ev_id e) (ev_name e)))"
proof (induction dflt stack m rule: self_time_loop.induct)
  case (1 dflt m)
  show ?case by simp
next
  case (2 dflt curr_event stack m)
  show ?case
  proof (cases "key_in curr_event m")
    case True
    then show ?thesis
      by (simp add: visit_children_eq key_in_def visit_order.simps [of curr_event])
  next
    case False
    let ?st = "ev_duration_time_ns curr_event - sum_list (map ev_duration_time_ns (children curr_event))"
    let ?m' = "m @ [entry dflt curr_event]"
    have upd: "metrics_set (metrics_set m curr_event (EventMetrics dflt ?st)) curr_event
            ((the (metrics_get (metrics_set m curr_event (EventMetrics dflt ?st)) curr_event))
                \<lparr>duration_time_ns := ev_duration_time_ns curr_event\<rparr>) = ?m'"
      using False
      by (simp add: metrics_set_new metrics_set_last metrics_get_last entry_def
          self_time_of_def EventMetrics_def)
    have vc: "(?st, rev (children curr_event) @ stack) =
        visit_children (children curr_event) (ev_duration_time_ns curr_event) stack"
      by (simp add: visit_children_eq)
    note ih = "2.IH" [OF vc False, unfolded upd]
    have "self_time_loop dflt (curr_event # stack) m =
          self_time_loop dflt (rev (children curr_event) @ stack) ?m'"
      using False upd by (simp add: visit_children_eq)
    with ih show ?thesis
      using False
      by (simp add: key_in_def entry_def visit_order.simps [of curr_event]
          split: option.splits)
  qed
qed


lemma first_dup_None:
  "first_dup seen es = None \<longleftrightarrow>
     distinct (map ev_id es) \<and> set seen \<inter> ev_id ` set es = {}"
  by (induction es arbitrary: seen) auto

lemma first_dup_Some:
  "first_dup seen es = Some e \<Longrightarrow>
     \<exists>pre post. es = pre @ e # post \<and> ev_id e \<in> set seen \<union> ev_id ` set pre \<and>
       first_dup seen pre = None"
proof (induction es arbitrary: seen)
  case Nil
  then show ?case by simp
next
  case (Cons x es)
  show ?case
  proof (cases "ev_id x \<in> set seen")
    case True
    with Cons.prems have "x = e" by simp
    with True have "x # es = [] @ e # es \<and> ev_id e \<in> set seen \<union> ev_id ` set [] \<and>
        first_dup seen [] = None"
      by simp
    then show ?thesis by blast
  next
    case False
    with Cons.prems have "first_dup (seen @ [ev_id x]) es = Some e" by simp
    from Cons.IH [OF this] obtain pre post where
      "es = pre @ e # post" "ev_id e \<in> set (seen @ [ev_id x]) \<union> ev_id ` set pre"
      "first_dup (seen @ [ev_id x]) pre = None"
      by blast
    with False have "x # es = (x # pre) @ e # post \<and>
        ev_id e \<in> set seen \<union> ev_id ` set (x # pre) \<and> first_dup seen (x # pre) = None"
      by auto
    then show ?thesis by blast
  qed
qed

definition tree_events :: "kineto_results \<Rightarrow> event list" where
  "tree_events kr = concat (map subtree (experimental_event_tree kr))"

definition visit_sequence :: "kineto_results \<Rightarrow> event list" where
  "visit_sequence kr = concat (map visit_order (rev (experimental_event_tree kr)))"

lemma mset_concat_map_rev:
  "mset (concat (map f (rev xs))) = mset (concat (map f xs))"
  by (induction xs) auto

lemma mset_concat_cong:
  "(\<And>x. x \<in> set xs \<Longrightarrow> mset (f x) = mset (g x)) \<Longrightarrow>
     mset (concat (map f xs)) = mset (concat (map g xs))"
  by (induction xs) auto

lemma mset_visit_order: "mset (visit_order e) = mset (subtree e)"
proof (induction e rule: subtree.induct)
  case (1 e)
  have "mset (concat (map visit_order (rev (children e)))) =
        mset (concat (map visit_order (children e)))"
    by (rule mset_concat_map_rev)
  also have "\<dots> = mset (concat (map subtree (children e)))"
    by (rule mset_concat_cong) (rule 1)
  finally show ?case
    by (simp add: visit_order.simps [of e] subtree.simps [of e])
qed

lemma mset_visit_sequence: "mset (visit_sequence kr) = mset (tree_events kr)"
proof -
  let ?roots = "experimental_event_tree kr"
  have "mset (concat (map visit_order (rev ?roots))) = mset (concat (map visit_order ?roots))"
    by (rule mset_concat_map_rev)
  also have "\<dots> = mset (concat (map subtree ?roots))"
    by (rule mset_concat_cong) (rule mset_visit_order)
  finally show ?thesis
    by (simp add: visit_sequence_def tree_events_def)
qed

lemma sum_concat_subtrees:
  "(\<And>c. c \<in> set cs \<Longrightarrow> sum_list (map f (subtree c)) = g c) \<Longrightarrow>
     sum_list (map f (concat (map subtree cs))) = sum_list (map g cs)"
  by (induction cs) auto

lemma self_time_telescopes:
  "sum_list (map self_time_of (subtree n)) = ev_duration_time_ns n"
proof (induction n rule: subtree.induct)
  case (1 e)
  have "sum_list (map self_time_of (concat (map subtree (children e)))) =
        sum_list (map ev_duration_time_ns (children e))"
    by (rule sum_concat_subtrees) (rule 1)
  then show ?case
    by (simp add: subtree.simps [of e] self_time_of_def [of e])
qed

lemma subtree_self: "n \<in> set (subtree n)"
  by (simp add: subtree.simps [of n])

lemma subtree_trans:
  "x \<in> set (subtree n) \<Longrightarrow> set (subtree x) \<subseteq> set (subtree n)"
proof (induction n rule: subtree.induct)
  case (1 e)
  show ?case
  proof (cases "x = e")
    case True
    then show ?thesis by simp
  next
    case False
    with "1.prems" obtain c where c: "c \<in> set (children e)" "x \<in> set (subtree c)"
      by (auto simp: subtree.simps [of e])
    from "1.IH" [OF c] have "set (subtree x) \<subseteq> set (subtree c)" .
    with c(1) show ?thesis by (auto simp: subtree.simps [of e])
  qed
qed

lemma subtree_in_tree_events:
  "n \<in> set (tree_events kr) \<Longrightarrow> set (subtree n) \<subseteq> set (tree_events kr)"
  unfolding tree_events_def using subtree_trans by fastforce

lemma metrics_get_entries:
  "distinct (map ev_id es) \<Longrightarrow> x \<in> set es \<Longrightarrow>
     metrics_get (map (entry dflt) es) x = Some (snd (entry dflt x))"
  by (induction es) (auto simp: entry_def)

lemma compute_self_time_char:
  "kineto_results prof = Some kr \<Longrightarrow>
   compute_self_time dflt prof m =
     (case first_dup (map (ev_id \<circ> fst) m) (visit_sequence kr) of
        None \<Rightarrow> Inr (m @ map (entry dflt) (visit_sequence kr))
      | Some e \<Rightarrow> Inl (Duplicate_id (ev_id e) (ev_name e)))"
  unfolding compute_self_time_def visit_sequence_def
  by (simp add: self_time_loop_char)

lemma distinct_ids_visit_sequence:
  "distinct (map ev_id (visit_sequence kr)) = distinct (map ev_id (tree_events kr))"
proof -
  have "mset (map ev_id (visit_sequence kr)) = mset (map ev_id (tree_events kr))"
    by (simp add: mset_visit_sequence)
  then show ?thesis by (rule mset_eq_imp_distinct_iff)
qed

text \<open>
  Claim C1. In a tree whose events have distinct identities (no event is counted twice),
  \<open>compute_self_time\<close> succeeds, records for every event its duration minus the sum of
  the durations of its direct children as \<open>self_time_ns\<close>, and the recorded self times of
  a node and all of its descendants add up to the node's \<open>duration_time_ns\<close>.
\<close>

theorem self_time_sums_to_duration:
  assumes kr: "kineto_results prof = Some kr"
    and wf: "distinct (map ev_id (tree_events kr))"
    and n: "n \<in> set (tree_events kr)"
  shows "\<exists>m. compute_self_time dflt prof [] = Inr m \<and>
    (\<forall>e \<in> set (tree_events kr). \<exists>v. metrics_get m e = Some v \<and>
        self_time_ns v =
          ev_duration_time_ns e - sum_list (map ev_duration_time_ns (children e))) \<and>
    sum_list (map (\<lambda>x. self_time_ns (the (metrics_get m x))) (subtree n)) =
      ev_duration_time_ns n"
proof -
  let ?m = "map (entry dflt) (visit_sequence kr)"
  have d: "distinct (map ev_id (visit_sequence kr))"
    using wf by (simp add: distinct_ids_visit_sequence)
  then have run: "compute_self_time dflt prof [] = Inr ?m"
    using compute_self_time_char [OF kr, of dflt "[]"] first_dup_None [of "[]" "visit_sequence kr"]
    by simp
  have set_eq: "set (visit_sequence kr) = set (tree_events kr)"
    using mset_visit_sequence [of kr] by (rule mset_eq_setD)
  have get: "metrics_get ?m e = Some (snd (entry dflt e))" if "e \<in> set (tree_events kr)" for e
    using that d set_eq by (simp add: metrics_get_entries)
  have each: "\<forall>e \<in> set (tree_events kr). \<exists>v. metrics_get ?m e = Some v \<and>
        self_time_ns v =
          ev_duration_time_ns e - sum_list (map ev_duration_time_ns (children e))"
    using get by (simp add: entry_def self_time_of_def)
  have "map (\<lambda>x. self_time_ns (the (metrics_get ?m x))) (subtree n) =
        map self_time_of (subtree n)"
    using get subtree_in_tree_events [OF n] by (auto simp: entry_def)
  from arg_cong [OF this, of sum_list]
  have "sum_list (map (\<lambda>x. self_time_ns (the (metrics_get ?m x))) (subtree n)) =
      ev_duration_time_ns n"
    by (simp only: self_time_telescopes)
  with run each show ?thesis by blast
qed


text \<open>
  Claim C9. When the traversal meets an event identity for the second time,
  \<open>compute_self_time\<close> aborts with \<open>Duplicate_id\<close> carrying the id and the name of
  that event (the first event of the visiting order whose id was seen before) and no
  entry is overwritten; whenever it returns, the keys of the metrics have distinct
  identities and are exactly the events of the tree, each once.
\<close>

theorem duplicate_id_aborts:
  assumes kr: "kineto_results prof = Some kr"
  shows "(\<not> distinct (map ev_id (tree_events kr)) \<longrightarrow>
            (\<exists>pre e post. visit_sequence kr = pre @ e # post \<and>
               distinct (map ev_id pre) \<and> ev_id e \<in> ev_id ` set pre \<and>
               compute_self_time dflt prof [] = Inl (Duplicate_id (ev_id e) (ev_name e)))) \<and>
         (\<forall>m. compute_self_time dflt prof [] = Inr m \<longrightarrow>
            distinct (map (ev_id \<circ> fst) m) \<and> mset (map fst m) = mset (tree_events kr))"
proof (intro conjI impI allI)
  assume "\<not> distinct (map ev_id (tree_events kr))"
  then have "first_dup [] (visit_sequence kr) \<noteq> None"
    by (simp add: first_dup_None distinct_ids_visit_sequence)
  then obtain e where e: "first_dup [] (visit_sequence kr) = Some e"
    by blast
  from first_dup_Some [OF e] obtain pre post where
    split: "visit_sequence kr = pre @ e # post" "ev_id e \<in> ev_id ` set pre"
      "first_dup [] pre = None"
    by auto
  from split(3) have "distinct (map ev_id pre)"
    by (simp add: first_dup_None)
  moreover have "compute_self_time dflt prof [] = Inl (Duplicate_id (ev_id e) (ev_name e))"
    using compute_self_time_char [OF kr, of dflt "[]"] e by simp
  ultimately show "\<exists>pre e post. visit_sequence kr = pre @ e # post \<and>
      distinct (map ev_id pre) \<and> ev_id e \<in> ev_id ` set pre \<and>
      compute_self_time dflt prof [] = Inl (Duplicate_id (ev_id e) (ev_name e))"
    using split(1,2) by blast
next
  fix m
  assume "compute_self_time dflt prof [] = Inr m"
  then have none: "first_dup [] (visit_sequence kr) = None"
    and m: "m = map (entry dflt) (visit_sequence kr)"
    using compute_self_time_char [OF kr, of dflt "[]"]
    by (auto split: option.splits)
  have fst: "map fst m = visit_sequence kr"
    by (simp add: m entry_def comp_def)
  from none have "distinct (map ev_id (map fst m))"
    by (simp only: fst) (simp add: first_dup_None)
  then show "distinct (map (ev_id \<circ> fst) m)" by simp
  show "mset (map fst m) = mset (tree_events kr)"
    by (simp only: fst mset_visit_sequence)
qed

lemma metrics_get_append:
  "ev_id e \<notin> set (map (ev_id \<circ> fst) m0) \<Longrightarrow> metrics_get (m0 @ new) e = metrics_get new e"
  by (induction m0) auto

text \<open>
  Claim C10. \<open>compute_self_time\<close> leaves the records it finds untouched and appends new
  ones whose \<open>idle_time_ns\<close> and \<open>queue_depth\<close> are the defaults of the constructor;
  so every event of the tree has a record with these two fields at their defaults.
\<close>

theorem compute_self_time_frame:
  assumes kr: "kineto_results prof = Some kr"
    and run: "compute_self_time dflt prof m0 = Inr m"
  shows "(\<exists>new. m = m0 @ new \<and>
            (\<forall>(k, v) \<in> set new.
               idle_time_ns v = idle_time_ns dflt \<and> queue_depth v = queue_depth dflt)) \<and>
         (\<forall>e \<in> set (tree_events kr). \<exists>v. metrics_get m e = Some v \<and>
               idle_time_ns v = idle_time_ns dflt \<and> queue_depth v = queue_depth dflt)"
proof -
  let ?new = "map (entry dflt) (visit_sequence kr)"
  from run have none: "first_dup (map (ev_id \<circ> fst) m0) (visit_sequence kr) = None"
    and m: "m = m0 @ ?new"
    using compute_self_time_char [OF kr, of dflt m0]
    by (auto split: option.splits)
  have new: "\<forall>(k, v) \<in> set ?new.
      idle_time_ns v = idle_time_ns dflt \<and> queue_depth v = queue_depth dflt"
    by (auto simp: entry_def)
  have set_eq: "set (visit_sequence kr) = set (tree_events kr)"
    using mset_visit_sequence [of kr] by (rule mset_eq_setD)
  from none have d: "distinct (map ev_id (visit_sequence kr))"
    and disj: "set (map (ev_id \<circ> fst) m0) \<inter> ev_id ` set (visit_sequence kr) = {}"
    by (simp_all add: first_dup_None)
  have "\<exists>v. metrics_get m e = Some v \<and>
       idle_time_ns v = idle_time_ns dflt \<and> queue_depth v = queue_depth dflt"
    if e: "e \<in> set (tree_events kr)" for e
  proof -
    from e set_eq have e': "e \<in> set (visit_sequence kr)" by simp
    with disj have "ev_id e \<notin> set (map (ev_id \<circ> fst) m0)" by blast
    then have "metrics_get m e = metrics_get ?new e"
      unfolding m by (rule metrics_get_append)
    also have "\<dots> = Some (snd (entry dflt e))"
      using d e' by (rule metrics_get_entries)
    finally show ?thesis by (simp add: entry_def)
  qed
  with m new show ?thesis by blast
qed


section \<open>Queue depth\<close>

lemma key_in_get: "key_in e m \<longleftrightarrow> metrics_get m e \<noteq> None"
  by (induction m) (auto simp: key_in_def)

lemma metrics_get_set:
  "metrics_get (metrics_set m e v) x = (if ev_id x = ev_id e then Some v else metrics_get m x)"
  by (induction m) auto

lemma sweep_intervals_nonneg:
  "sweep ks km es cur sp qdl m = Inr (qdl', m') \<Longrightarrow>
   \<forall>iv \<in> set qdl. 0 \<le> iv_queue_depth iv \<Longrightarrow>
   \<forall>iv \<in> set qdl'. 0 \<le> iv_queue_depth iv"
proof (induction ks km es cur sp qdl m rule: sweep.induct)
  case (1 ks km cur sp qdl m)
  then show ?case by simp
next
  case (2 ks km event es cur sp qdl m)
  from "2.prems" show ?case
    by (intro "2.IH" [OF refl refl refl refl refl]) (auto simp: Let_def Interval_def)
next
  case (3 ks km event es cur sp qdl m)
  from "3.prems" obtain v where v: "metrics_get m event = Some v"
    by (auto simp: Let_def split: option.splits)
  from "3.prems" show ?case
    by (intro "3.IH" [OF refl refl refl v]) (auto simp: Let_def v)
qed

definition depth_stored :: "metrics \<Rightarrow> event \<Rightarrow> bool" where
  "depth_stored m e = (\<exists>v. metrics_get m e = Some v \<and> 0 \<le> queue_depth v)"

lemma sweep_metrics_nonneg:
  "sweep ks km es cur sp qdl m = Inr (qdl', m') \<Longrightarrow>
   \<forall>e \<in> S. depth_stored m e \<Longrightarrow>
   \<forall>e \<in> S \<union> {e. Tree e \<in> set es}. depth_stored m' e"
proof (induction ks km es cur sp qdl m arbitrary: S rule: sweep.induct)
  case (1 ks km cur sp qdl m)
  then show ?case by simp
next
  case (2 ks km event es cur sp qdl m)
  from "2.prems" have "\<forall>e \<in> S \<union> {e. Tree e \<in> set es}. depth_stored m' e"
    by (intro "2.IH" [OF refl refl refl refl refl]) (auto simp: Let_def)
  then show ?case by simp
next
  case (3 ks km event es cur sp qdl m)
  from "3.prems" obtain v where v: "metrics_get m event = Some v"
    by (auto simp: Let_def split: option.splits)
  let ?d = "max (sp - int (advance ks cur (start_time_ns event)) + 1) 0"
  let ?m = "metrics_set m event (v\<lparr>queue_depth := ?d\<rparr>)"
  have run: "sweep ks km es (advance ks cur (start_time_ns event)) sp qdl ?m = Inr (qdl', m')"
    using "3.prems"(1) by (simp add: Let_def v)
  have "\<forall>e \<in> insert event S. depth_stored ?m e"
    using "3.prems"(2) by (auto simp: depth_stored_def metrics_get_set)
  from "3.IH" [OF refl refl refl v run this]
  show ?case by auto
qed

lemma Tree_in_all_events:
  "Tree e \<in> set (all_events_of l events) \<longleftrightarrow> e \<in> set events"
  by (auto simp: all_events_of_def)

lemma key_in_metrics_set:
  "key_in x (metrics_set m e v) \<longleftrightarrow> key_in x m \<or> ev_id x = ev_id e"
  by (simp add: key_in_get metrics_get_set)

lemma sweep_succeeds:
  "\<forall>e. Tree e \<in> set es \<longrightarrow> key_in e m \<Longrightarrow>
   \<exists>qdl' m'. sweep ks km es cur sp qdl m = Inr (qdl', m')"
proof (induction ks km es cur sp qdl m rule: sweep.induct)
  case (1 ks km cur sp qdl m)
  show ?case by simp
next
  case (2 ks km event es cur sp qdl m)
  have "\<forall>e. Tree e \<in> set es \<longrightarrow> key_in e m"
    using "2.prems" by simp
  from "2.IH" [OF refl refl refl refl refl this] show ?case
    by (simp add: Let_def)
next
  case (3 ks km event es cur sp qdl m)
  from "3.prems" obtain v where v: "metrics_get m event = Some v"
    by (auto simp: key_in_get)
  let ?m = "metrics_set m event
      (v\<lparr>queue_depth := max (sp - int (advance ks cur (start_time_ns event)) + 1) 0\<rparr>)"
  have "\<forall>e. Tree e \<in> set es \<longrightarrow> key_in e ?m"
    using "3.prems" by (simp add: key_in_metrics_set)
  from "3.IH" [OF refl refl refl v this] show ?case
    by (simp add: Let_def v)
qed

lemma compute_queue_depth_succeeds:
  assumes "kineto_results prof = Some kr" and "\<forall>e \<in> set events. key_in e m"
  shows "\<exists>mlu_events queue_depth_list m'.
    compute_queue_depth prof events m = Inr (mlu_events, queue_depth_list, m')"
proof -
  let ?ks = "mlu_kernel_events_of (kr_events kr)"
  let ?km = "fst (correlate ?ks (mlu_launch_events_of (kr_events kr)) Map.empty 0)"
  have "\<forall>e. Tree e \<in> set (all_events_of (kr_events kr) events) \<longrightarrow> key_in e m"
    using assms(2) by (simp add: Tree_in_all_events)
  from sweep_succeeds [OF this, of ?ks ?km 0 "- 1" "[]"] obtain qdl' m' where
    "sweep ?ks ?km (all_events_of (kr_events kr) events) 0 (- 1) [] m = Inr (qdl', m')"
    by blast
  then show ?thesis
    by (simp add: compute_queue_depth_def assms(1) Let_def)
qed

text \<open>
  Claim C3. \<open>compute_queue_depth\<close> returns whenever the trace has its results and every
  event of \<open>self.events\<close> has a metrics record; and whenever it returns, the depth of every
  interval of the timeline it returns is at least 0, and every event of \<open>self.events\<close>
  has a metrics record whose \<open>queue_depth\<close> is at least 0.
\<close>

theorem queue_depth_nonnegative:
  "(kineto_results prof \<noteq> None \<and> (\<forall>e \<in> set events. key_in e m) \<longrightarrow>
      (\<exists>r. compute_queue_depth prof events m = Inr r)) \<and>
   (compute_queue_depth prof events m = Inr (mlu_events, queue_depth_list, m') \<longrightarrow>
      (\<forall>iv \<in> set queue_depth_list. 0 \<le> iv_queue_depth iv) \<and>
      (\<forall>e \<in> set events. \<exists>v. metrics_get m' e = Some v \<and> 0 \<le> queue_depth v))"
proof (intro conjI impI)
  assume "kineto_results prof \<noteq> None \<and> (\<forall>e \<in> set events. key_in e m)"
  then obtain kr where "kineto_results prof = Some kr" "\<forall>e \<in> set events. key_in e m"
    by auto
  from compute_queue_depth_succeeds [OF this]
  show "\<exists>r. compute_queue_depth prof events m = Inr r" by blast
next
  assume result: "compute_queue_depth prof events m = Inr (mlu_events, queue_depth_list, m')"
  then obtain kr where kr: "kineto_results prof = Some kr"
    by (auto simp: compute_queue_depth_def split: option.splits)
  let ?ks = "mlu_kernel_events_of (kr_events kr)"
  let ?km = "fst (correlate ?ks (mlu_launch_events_of (kr_events kr)) Map.empty 0)"
  from result kr have run:
    "sweep ?ks ?km (all_events_of (kr_events kr) events) 0 (- 1) [] m = Inr (queue_depth_list, m')"
    by (auto simp: compute_queue_depth_def Let_def split: sum.splits)
  show "\<forall>iv \<in> set queue_depth_list. 0 \<le> iv_queue_depth iv"
    using sweep_intervals_nonneg [OF run] by simp
  have "\<forall>e \<in> {} \<union> {e. Tree e \<in> set (all_events_of (kr_events kr) events)}. depth_stored m' e"
    by (rule sweep_metrics_nonneg [OF run]) simp
  then show "\<forall>e \<in> set events. \<exists>v. metrics_get m' e = Some v \<and> 0 \<le> queue_depth v"
    by (simp add: Tree_in_all_events depth_stored_def)
qed

lemma correlate_append:
  "correlate ks (xs @ ys) km cursor =
     (case correlate ks xs km cursor of (km', cursor') \<Rightarrow> correlate ks ys km' cursor')"
  by (induction xs arbitrary: km cursor) (auto simp: Let_def)

lemma correlate_keeps:
  "x \<notin> obj ` set ls \<Longrightarrow> fst (correlate ks ls km cursor) x = km x"
  by (induction ls arbitrary: km cursor) (auto simp: Let_def)

lemma index_of_first_match_None:
  "index_of_first_match seq P start = None \<longleftrightarrow>
     (\<forall>i. start \<le> i \<and> i < length seq \<longrightarrow> \<not> P (seq ! i))"
  by (auto simp: index_of_first_match_def find_None_iff)

text \<open>
  Claim C4. Let the correlation loop reach the launch \<open>l\<close> with the cursor at
  \<open>last1\<close>, and let no kernel at or after the cursor have \<open>l\<close>'s correlation id. Then
  the loop maps \<open>l\<close> to \<open>None\<close> and leaves the cursor where it was; the finished
  mapping still holds \<open>None\<close> for \<open>l\<close> (the later launches being other objects); and
  when the sweep meets \<open>l\<close>, \<open>spawned_kernel_index\<close> passes to the rest of the sweep
  unchanged, the depth of \<open>l\<close>'s interval being computed from the old value.
\<close>

theorem unmatched_launch_no_index:
  assumes before: "correlate ks pre km0 last0 = (km1, last1)"
    and nomatch: "\<forall>i. last1 \<le> i \<and> i < length ks \<longrightarrow>
        linked_correlation_id (ks ! i) \<noteq> linked_correlation_id l"
    and later: "obj l \<notin> obj ` set post"
    and final: "km = fst (correlate ks (pre @ l # post) km0 last0)"
  shows "correlate ks (pre @ [l]) km0 last0 = (km1(obj l \<mapsto> None), last1) \<and>
         km (obj l) = Some None \<and>
         sweep ks km (Device l # es) cur spawned qdl m =
           sweep ks km es (advance ks cur (start_us l * 1000)) spawned
             (qdl @ [Interval (start_us l * 1000) ((start_us l + duration_us l) * 1000)
                       (max (spawned - int (advance ks cur (start_us l * 1000)) + 1) 0)]) m"
proof -
  have idx: "index_of_first_match ks
      (\<lambda>x. linked_correlation_id x = linked_correlation_id l) last1 = None"
    using nomatch by (simp add: index_of_first_match_None)
  have step: "correlate ks (pre @ [l]) km0 last0 = (km1(obj l \<mapsto> None), last1)"
    by (simp add: correlate_append before idx)
  have "correlate ks (pre @ l # post) km0 last0 =
        correlate ks post (km1(obj l \<mapsto> None)) last1"
    using correlate_append [of ks "pre @ [l]" post km0 last0] step by simp
  then have km: "km (obj l) = Some None"
    using correlate_keeps [OF later, of ks "km1(obj l \<mapsto> None)" last1] final by simp
  then have "sweep ks km (Device l # es) cur spawned qdl m =
           sweep ks km es (advance ks cur (start_us l * 1000)) spawned
             (qdl @ [Interval (start_us l * 1000) ((start_us l + duration_us l) * 1000)
                       (max (spawned - int (advance ks cur (start_us l * 1000)) + 1) 0)]) m"
    by (simp add: Let_def)
  with step km show ?thesis by blast
qed

subsection \<open>The launch-then-kernel scenario\<close>

lemma insort_key_split:
  "insort_key f x ys = takeWhile (\<lambda>y. f y < f x) ys @ x # dropWhile (\<lambda>y. f y < f x) ys"
  by (induction ys) auto

lemma insort_key_map:
  "insort_key f (g x) (map g ys) = map g (insort_key (\<lambda>a. f (g a)) x ys)"
  by (induction ys) auto

lemma sort_key_map:
  "sort_key f (map g xs) = map g (sort_key (\<lambda>a. f (g a)) xs)"
  by (induction xs) (auto simp: insort_key_map)

lemma sorted_dropWhile_ge:
  "sorted (map f xs) \<Longrightarrow> x \<in> set (dropWhile (\<lambda>y. f y < c) xs) \<Longrightarrow> c \<le> f x"
  by (induction xs) (auto split: if_splits)

text \<open>
  \<open>store_depth d t\<close> is the sweep's write \<open>self.metrics[EventKey(t)].queue_depth = d\<close>
  for a key that is present; \<open>depth_of\<close> reads the stored depth back.
\<close>

definition store_depth :: "int \<Rightarrow> event \<Rightarrow> metrics \<Rightarrow> metrics" where
  "store_depth d t m =
     (case metrics_get m t of None \<Rightarrow> m | Some v \<Rightarrow> metrics_set m t (v\<lparr>queue_depth := d\<rparr>))"

definition depth_of :: "metrics \<Rightarrow> event \<Rightarrow> int option" where
  "depth_of m e = map_option queue_depth (metrics_get m e)"

lemma depth_of_store_depth:
  "depth_of (store_depth d t m) x =
     (if ev_id x = ev_id t \<and> key_in x m then Some d else depth_of m x)"
proof (cases "metrics_get m t")
  case None
  then have "\<not> key_in t m" by (simp add: key_in_get)
  then have "ev_id x = ev_id t \<Longrightarrow> \<not> key_in x m" by (simp add: key_in_def)
  with None show ?thesis by (auto simp: store_depth_def)
next
  case (Some v)
  then have "key_in t m" by (simp add: key_in_get)
  then have "ev_id x = ev_id t \<Longrightarrow> key_in x m" by (simp add: key_in_def)
  with Some show ?thesis by (auto simp: store_depth_def depth_of_def metrics_get_set)
qed

lemma metrics_get_id: "ev_id x = ev_id t \<Longrightarrow> metrics_get m x = metrics_get m t"
  by (induction m) auto

lemma key_in_store_depth: "key_in x (store_depth d t m) = key_in x m"
  by (auto simp: store_depth_def key_in_get metrics_get_set metrics_get_id [of x t]
      split: option.splits)

lemma key_in_fold_store: "key_in x (fold (store_depth d) ts m) = key_in x m"
  by (induction ts arbitrary: m) (auto simp: key_in_store_depth)

lemma depth_of_fold_store:
  "key_in x m \<Longrightarrow>
   depth_of (fold (store_depth d) ts m) x =
     (if ev_id x \<in> ev_id ` set ts then Some d else depth_of m x)"
proof (induction ts arbitrary: m)
  case Nil
  then show ?case by simp
next
  case (Cons t ts)
  have "key_in x (store_depth d t m)"
    using Cons.prems by (simp add: key_in_store_depth)
  from Cons.IH [OF this] Cons.prems show ?case
    by (simp add: depth_of_store_depth)
qed

lemma sweep_trees:
  assumes "\<forall>t \<in> set ts. advance ks cur (start_time_ns t) = cur"
    and "\<forall>t \<in> set ts. key_in t m"
  shows "sweep ks km (map Tree ts @ rest) cur sp qdl m =
         sweep ks km rest cur sp qdl (fold (store_depth (max (sp - int cur + 1) 0)) ts m)"
  using assms
proof (induction ts arbitrary: m)
  case Nil
  then show ?case by simp
next
  case (Cons t ts)
  from Cons.prems obtain v where v: "metrics_get m t = Some v"
    by (auto simp: key_in_get)
  let ?d = "max (sp - int cur + 1) 0"
  have m1: "metrics_set m t (v\<lparr>queue_depth := ?d\<rparr>) = store_depth ?d t m"
    by (simp add: store_depth_def v)
  have keys: "\<forall>t \<in> set ts. key_in t (store_depth ?d t m)"
    using Cons.prems by (simp add: key_in_store_depth)
  have adv: "advance ks cur (start_time_ns t) = cur"
    using Cons.prems by simp
  have "sweep ks km (map Tree (t # ts) @ rest) cur sp qdl m =
        sweep ks km (map Tree ts @ rest) cur sp qdl (store_depth ?d t m)"
    by (simp add: Let_def adv v m1)
  also have "\<dots> = sweep ks km rest cur sp qdl (fold (store_depth ?d) ts (store_depth ?d t m))"
    using Cons.prems by (intro Cons.IH) (simp_all add: key_in_store_depth)
  finally show ?case by simp
qed


lemma takeWhile_stop:
  "\<not> P y \<Longrightarrow> takeWhile P (xs @ y # ys) = takeWhile P xs"
  by (induction xs) auto

lemma dropWhile_stop:
  "\<not> P y \<Longrightarrow> dropWhile P (xs @ y # ys) = dropWhile P xs @ y # ys"
  by (induction xs) auto

lemma sorted_map_takeWhile:
  "sorted (map f xs) \<Longrightarrow> sorted (map f (takeWhile P xs))"
  by (induction xs) (auto dest: set_takeWhileD)

lemma all_events_launch_kernel:
  assumes launches: "filter is_mlu_launch_kernel evs = [l]"
    and kernels: "filter is_mlu_kernel evs = [k]"
    and times: "start_us l = 10" "start_us k = 12"
  shows "all_events_of evs events =
     map Tree (takeWhile (\<lambda>t. start_time_ns t < 10000)
                (takeWhile (\<lambda>t. start_time_ns t < 12000) (sort_key start_time_ns events))) @
     Device l #
     map Tree (dropWhile (\<lambda>t. start_time_ns t < 10000)
                (takeWhile (\<lambda>t. start_time_ns t < 12000) (sort_key start_time_ns events))) @
     Device k #
     map Tree (dropWhile (\<lambda>t. start_time_ns t < 12000) (sort_key start_time_ns events))"
proof -
  let ?S = "sort_key start_time_ns events"
  let ?T1 = "takeWhile (\<lambda>t. start_time_ns t < 12000) ?S"
  let ?C = "dropWhile (\<lambda>t. start_time_ns t < 12000) ?S"
  have trees: "sort_key new_old_event_comparator (map Tree events) = map Tree ?S"
    by (simp add: sort_key_map)
  have ins_k: "insort_key new_old_event_comparator (Device k) (map Tree ?S) =
      map Tree ?T1 @ Device k # map Tree ?C"
    by (simp add: insort_key_split times takeWhile_map dropWhile_map comp_def)
  have not_lt: "\<not> new_old_event_comparator (Device k) < new_old_event_comparator (Device l)"
    by (simp add: times)
  have "all_events_of evs events =
      insort_key new_old_event_comparator (Device l)
        (insort_key new_old_event_comparator (Device k)
          (sort_key new_old_event_comparator (map Tree events)))"
    by (simp add: all_events_of_def mlu_launch_events_of_def mlu_kernel_events_of_def
        launches kernels)
  also have "\<dots> = insort_key new_old_event_comparator (Device l)
      (map Tree ?T1 @ Device k # map Tree ?C)"
    by (simp only: trees ins_k)
  also have "\<dots> =
      takeWhile (\<lambda>y. new_old_event_comparator y < new_old_event_comparator (Device l))
        (map Tree ?T1) @ Device l #
      dropWhile (\<lambda>y. new_old_event_comparator y < new_old_event_comparator (Device l))
        (map Tree ?T1) @ Device k # map Tree ?C"
    using not_lt by (simp add: insort_key_split takeWhile_stop dropWhile_stop)
  finally show ?thesis
    by (simp add: times takeWhile_map dropWhile_map comp_def)
qed


lemma distinct_ids_split:
  assumes "distinct (map ev_id (xs @ ys))" "e \<in> set xs"
  shows "ev_id e \<notin> ev_id ` set ys"
  using assms by auto

text \<open>
  Claim C2. When the launches among the device events are one event \<open>l\<close> at 10us and the
  kernels one event \<open>k\<close> at 12us, both with correlation id 1, \<open>compute_queue_depth\<close>
  returns the timeline of two intervals, depth 1 at the launch (10000ns) and depth 0 at
  the kernel (12000ns), and stores depth 1 for every tree event that starts at or after
  the launch and before 12us, and depth 0 for every other one, so for all that start at
  or after 12us.
\<close>

theorem launch_then_kernel_queue_depth:
  assumes kr: "kineto_results prof = Some kr"
    and launches: "filter is_mlu_launch_kernel (kr_events kr) = [l]"
    and kernels: "filter is_mlu_kernel (kr_events kr) = [k]"
    and times: "start_us l = 10" "start_us k = 12"
    and corr: "linked_correlation_id l = 1" "linked_correlation_id k = 1"
    and objs: "obj l \<noteq> obj k"
    and keys: "\<forall>e \<in> set events. key_in e m"
    and ids: "distinct (map ev_id events)"
  shows "\<exists>mlu_events m'.
      compute_queue_depth prof events m =
        Inr (mlu_events,
             [Interval 10000 ((10 + duration_us l) * 1000) 1,
              Interval 12000 ((12 + duration_us k) * 1000) 0], m') \<and>
      (\<forall>e \<in> set events. \<exists>v. metrics_get m' e = Some v \<and>
         queue_depth v =
           (if 10000 \<le> start_time_ns e \<and> start_time_ns e < 12000 then 1 else 0))"
proof -
  let ?S = "sort_key start_time_ns events"
  let ?T1 = "takeWhile (\<lambda>t. start_time_ns t < 12000) ?S"
  let ?A = "takeWhile (\<lambda>t. start_time_ns t < 10000) ?T1"
  let ?B = "dropWhile (\<lambda>t. start_time_ns t < 10000) ?T1"
  let ?C = "dropWhile (\<lambda>t. start_time_ns t < 12000) ?S"
  let ?km = "[obj l \<mapsto> Some (0::nat)]"
  let ?i1 = "Interval 10000 ((10 + duration_us l) * 1000) 1"
  let ?i2 = "Interval 12000 ((12 + duration_us k) * 1000) 0"
  let ?mA = "fold (store_depth 0) ?A m"
  let ?mB = "fold (store_depth 1) ?B ?mA"
  let ?mC = "fold (store_depth 0) ?C ?mB"
  have "(?A @ ?B) @ ?C = ?S" by (simp only: takeWhile_dropWhile_id)
  then have S: "?A @ ?B @ ?C = ?S" by (simp only: append_assoc)
  have sorted_S: "sorted (map start_time_ns ?S)" by (rule sorted_sort_key)
  have in_T1: "start_time_ns t < 12000" if "t \<in> set ?T1" for t
    using that by (auto dest: set_takeWhileD)
  have in_A: "start_time_ns t < 10000" if "t \<in> set ?A" for t
    using that by (auto dest: set_takeWhileD)
  have in_B: "10000 \<le> start_time_ns t \<and> start_time_ns t < 12000" if "t \<in> set ?B" for t
  proof
    have "sorted (map start_time_ns ?T1)"
      using sorted_S by (rule sorted_map_takeWhile)
    then show "10000 \<le> start_time_ns t"
      using that by (rule sorted_dropWhile_ge)
    from that have "t \<in> set ?T1" by (rule set_dropWhileD)
    then show "start_time_ns t < 12000" by (rule in_T1)
  qed
  have in_C: "12000 \<le> start_time_ns t" if "t \<in> set ?C" for t
    using sorted_S that by (rule sorted_dropWhile_ge)
  have sub: "set ?A \<subseteq> set events" "set ?B \<subseteq> set events" "set ?C \<subseteq> set events"
    by (auto dest!: set_takeWhileD set_dropWhileD)
  have adv0: "advance [k] 0 t = (if 12000 \<le> t then 1 else 0)" for t
    by (simp add: advance.simps [of _ 0] advance.simps [of _ "Suc 0"] times)
  have adv1: "advance [k] (Suc 0) t = Suc 0" for t
    by (simp add: advance.simps [of _ "Suc 0"])
  have keysA: "\<forall>t \<in> set ?A. key_in t m"
    using keys sub(1) by blast
  have keysB: "\<forall>t \<in> set ?B. key_in t ?mA"
    using keys sub(2) by (auto simp: key_in_fold_store)
  have keysC: "\<forall>t \<in> set ?C. key_in t ?mB"
    using keys sub(3) by (auto simp: key_in_fold_store)
  have km_l: "?km (obj l) = Some (Some 0)" by simp
  have km_k: "?km (obj k) = None" using objs by simp
  have segA: "sweep [k] ?km (map Tree ?A @ Device l # map Tree ?B @ Device k # map Tree ?C)
        0 (- 1) [] m =
      sweep [k] ?km (Device l # map Tree ?B @ Device k # map Tree ?C) 0 (- 1) [] ?mA"
  proof -
    have "\<forall>t \<in> set ?A. advance [k] 0 (start_time_ns t) = 0"
      using in_A by (fastforce simp: adv0)
    from sweep_trees [OF this keysA] show ?thesis by simp
  qed
  have stepl: "sweep [k] ?km (Device l # map Tree ?B @ Device k # map Tree ?C) 0 (- 1) [] ?mA =
      sweep [k] ?km (map Tree ?B @ Device k # map Tree ?C) 0 0 [?i1] ?mA"
    by (simp add: Let_def km_l times adv0 del: fun_upd_apply)
  have segB: "sweep [k] ?km (map Tree ?B @ Device k # map Tree ?C) 0 0 [?i1] ?mA =
      sweep [k] ?km (Device k # map Tree ?C) 0 0 [?i1] ?mB"
  proof -
    have "\<forall>t \<in> set ?B. advance [k] 0 (start_time_ns t) = 0"
      using in_B by (fastforce simp: adv0)
    from sweep_trees [OF this keysB] show ?thesis by simp
  qed
  have stepk: "sweep [k] ?km (Device k # map Tree ?C) 0 0 [?i1] ?mB =
      sweep [k] ?km (map Tree ?C @ []) (Suc 0) 0 [?i1, ?i2] ?mB"
    by (simp add: Let_def km_k times adv0 del: fun_upd_apply)
  have segC: "sweep [k] ?km (map Tree ?C @ []) (Suc 0) 0 [?i1, ?i2] ?mB =
      sweep [k] ?km [] (Suc 0) 0 [?i1, ?i2] ?mC"
  proof -
    have "\<forall>t \<in> set ?C. advance [k] (Suc 0) (start_time_ns t) = Suc 0"
      by (simp add: adv1)
    from sweep_trees [OF this keysC, of ?km "[]" 0 "[?i1, ?i2]"] show ?thesis by simp
  qed
  have run_sweep: "sweep [k] ?km (all_events_of (kr_events kr) events) 0 (- 1) [] m =
      Inr ([?i1, ?i2], ?mC)"
  proof -
    have "sweep [k] ?km (all_events_of (kr_events kr) events) 0 (- 1) [] m =
        sweep [k] ?km (map Tree ?A @ Device l # map Tree ?B @ Device k # map Tree ?C)
          0 (- 1) [] m"
      by (simp only: all_events_launch_kernel [OF launches kernels times])
    also note segA
    also note stepl
    also note segB
    also note stepk
    also note segC
    finally show ?thesis by simp
  qed
  have idx: "index_of_first_match [k]
      (\<lambda>x. linked_correlation_id x = linked_correlation_id l) 0 = Some 0"
    by (simp add: index_of_first_match_def corr)
  have km: "fst (correlate [k] [l] Map.empty 0) = ?km"
    by (simp add: idx)
  have run: "compute_queue_depth prof events m =
      Inr (sort_key start_us ([l] @ [k]), [?i1, ?i2], ?mC)"
    unfolding compute_queue_depth_def
    by (simp add: kr Let_def mlu_launch_events_of_def mlu_kernel_events_of_def
        launches kernels km run_sweep del: fun_upd_apply correlate.simps)
  have dS: "distinct (map ev_id ?S)"
  proof -
    have "mset (map ev_id ?S) = mset (map ev_id events)" by simp
    from mset_eq_imp_distinct_iff [OF this] ids show ?thesis by blast
  qed
  have depth: "depth_of ?mC e =
      Some (if 10000 \<le> start_time_ns e \<and> start_time_ns e < 12000 then 1 else 0)"
    if e: "e \<in> set events" for e
  proof -
    have k0: "key_in e m" using keys e by blast
    have formula: "depth_of ?mC e =
        (if ev_id e \<in> ev_id ` set ?C then Some 0
         else if ev_id e \<in> ev_id ` set ?B then Some 1
         else if ev_id e \<in> ev_id ` set ?A then Some 0 else depth_of m e)"
      using k0 by (simp add: depth_of_fold_store key_in_fold_store)
    from e have "e \<in> set ?S" by simp
    then have "e \<in> set (?A @ ?B @ ?C)" by (simp only: S)
    then consider (A) "e \<in> set ?A" | (B) "e \<in> set ?B" | (C) "e \<in> set ?C"
      by auto
    then show ?thesis
    proof cases
      case A
      have "distinct (map ev_id (?A @ (?B @ ?C)))" using dS by (simp only: S)
      from distinct_ids_split [OF this A]
      have "ev_id e \<notin> ev_id ` set ?B" "ev_id e \<notin> ev_id ` set ?C" by auto
      with A in_A [OF A] show ?thesis
        unfolding formula by auto
    next
      case B
      have "distinct (map ev_id ((?A @ ?B) @ ?C))" using dS by (simp only: S append_assoc)
      moreover have "e \<in> set (?A @ ?B)"
        using B unfolding set_append by (rule UnI2)
      ultimately have "ev_id e \<notin> ev_id ` set ?C"
        by (rule distinct_ids_split)
      with B in_B [OF B] show ?thesis
        unfolding formula by auto
    next
      case C
      with in_C [OF C] show ?thesis
        unfolding formula by auto
    qed
  qed
  have "\<forall>e \<in> set events. \<exists>v. metrics_get ?mC e = Some v \<and>
         queue_depth v =
           (if 10000 \<le> start_time_ns e \<and> start_time_ns e < 12000 then 1 else 0)"
    using depth by (auto simp: depth_of_def)
  with run show ?thesis by blast
qed

section \<open>Idle intervals\<close>

lemma idle_scan_acc:
  "idle_scan qs idle s acc = acc @ idle_scan qs idle s []"
proof (induction qs arbitrary: idle s acc)
  case Nil
  show ?case by simp
next
  case (Cons q qs)
  show ?case
    using Cons.IH [of _ _ "acc @ [Interval2 (if iv_queue_depth q = 0 \<and> \<not> idle then iv_end q else s) (iv_start q)]"]
      Cons.IH [of _ _ "[Interval2 (if iv_queue_depth q = 0 \<and> \<not> idle then iv_end q else s) (iv_start q)]"]
      Cons.IH [of _ _ acc]
    by (auto simp: Let_def)
qed

lemma idle_scan_positive:
  "\<forall>d \<in> set pos. iv_queue_depth d > 0 \<Longrightarrow>
   idle_scan (pos @ rest) False s acc = idle_scan rest False s acc"
  by (induction pos arbitrary: s acc) (auto simp: Let_def)

lemma idle_scan_zeros:
  "\<forall>d \<in> set zs. iv_queue_depth d = 0 \<Longrightarrow>
   idle_scan (zs @ rest) True s acc = idle_scan rest True s acc"
  by (induction zs arbitrary: s acc) (auto simp: Let_def)

text \<open>
  Claim C5, as amended. A maximal run of depth-0 intervals \<open>z # zs\<close> that the scan
  reaches outside an idle period and that is followed by an interval \<open>p\<close> of positive
  depth gives rise to exactly one idle interval, from the end of the run's first interval
  \<open>z\<close> to the start of \<open>p\<close>, after which the scan goes on outside an idle period; a
  run at the end of the list gives rise to none.
\<close>

theorem idle_interval_of_zero_run:
  assumes pos: "\<forall>d \<in> set pos. iv_queue_depth d > 0"
    and zeros: "\<forall>d \<in> set (z # zs). iv_queue_depth d = 0"
    and next_pos: "iv_queue_depth p > 0"
  shows "idle_scan (pos @ (z # zs) @ p # rest) False s acc =
           idle_scan rest False (iv_end z) (acc @ [Interval2 (iv_end z) (iv_start p)]) \<and>
         idle_scan (pos @ (z # zs)) False s acc = acc"
proof
  have "idle_scan (pos @ (z # zs) @ p # rest) False s acc =
        idle_scan ((z # zs) @ p # rest) False s acc"
    using pos by (rule idle_scan_positive)
  also have "\<dots> = idle_scan (zs @ p # rest) True (iv_end z) acc"
    using zeros by (simp add: Let_def)
  also have "\<dots> = idle_scan (p # rest) True (iv_end z) acc"
    using zeros by (intro idle_scan_zeros) simp
  also have "\<dots> = idle_scan rest False (iv_end z) (acc @ [Interval2 (iv_end z) (iv_start p)])"
    using next_pos by (simp add: Let_def)
  finally show "idle_scan (pos @ (z # zs) @ p # rest) False s acc =
      idle_scan rest False (iv_end z) (acc @ [Interval2 (iv_end z) (iv_start p)])" .
  have "idle_scan (pos @ (z # zs) @ []) False s acc = idle_scan ((z # zs) @ []) False s acc"
    using pos by (rule idle_scan_positive)
  also have "\<dots> = idle_scan (zs @ []) True (iv_end z) acc"
    using zeros by (simp add: Let_def)
  also have "\<dots> = idle_scan [] True (iv_end z) acc"
    using zeros by (intro idle_scan_zeros) simp
  finally show "idle_scan (pos @ (z # zs)) False s acc = acc" by simp
qed

text \<open>
  Intervals are half-open: \<open>time_in t iv\<close> says that the time \<open>t\<close> lies in \<open>iv\<close>, and
  two intervals overlap when some time lies in both.
\<close>

definition time_in :: "int \<Rightarrow> interval \<Rightarrow> bool" where
  "time_in t iv = (iv_start iv \<le> t \<and> t < iv_end iv)"

definition overlapping :: "interval \<Rightarrow> interval \<Rightarrow> bool" where
  "overlapping a b = (max (iv_start a) (iv_start b) < min (iv_end a) (iv_end b))"

fun pairwise_disjoint :: "interval list \<Rightarrow> bool" where
  "pairwise_disjoint [] = True"
| "pairwise_disjoint (x # xs) = ((\<forall>y \<in> set xs. \<not> overlapping x y) \<and> pairwise_disjoint xs)"

lemma overlapping_iff: "overlapping a b \<longleftrightarrow> (\<exists>t. time_in t a \<and> time_in t b)"
proof
  assume "overlapping a b"
  then have "time_in (max (iv_start a) (iv_start b)) a \<and>
      time_in (max (iv_start a) (iv_start b)) b"
    by (auto simp: overlapping_def time_in_def)
  then show "\<exists>t. time_in t a \<and> time_in t b" ..
next
  assume "\<exists>t. time_in t a \<and> time_in t b"
  then show "overlapping a b"
    by (auto simp: overlapping_def time_in_def)
qed

lemma before_not_overlapping: "iv_end a \<le> iv_start b \<Longrightarrow> \<not> overlapping a b"
  by (auto simp: overlapping_def)

lemma idle_scan_disjoint:
  assumes "sorted (map iv_start qs)"
    and "\<forall>q \<in> set qs. iv_start q \<le> iv_end q"
    and "\<forall>q \<in> set qs. lo \<le> iv_start q \<and> iv_start q \<le> hi"
    and "idle \<longrightarrow> lo \<le> s"
  shows "pairwise_disjoint (idle_scan qs idle s []) \<and>
         (\<forall>x \<in> set (idle_scan qs idle s []). lo \<le> iv_start x \<and> iv_end x \<le> hi)"
  using assms
proof (induction qs arbitrary: idle s lo)
  case Nil
  show ?case by simp
next
  case (Cons q qs)
  have sorted: "sorted (map iv_start qs)" and ends: "\<forall>r \<in> set qs. iv_start r \<le> iv_end r"
    and after: "\<forall>r \<in> set qs. iv_start q \<le> iv_start r"
    and q: "lo \<le> iv_start q" "iv_start q \<le> hi" "iv_start q \<le> iv_end q"
    and range: "\<forall>r \<in> set qs. lo \<le> iv_start r \<and> iv_start r \<le> hi"
    using Cons.prems by auto
  consider (start) "iv_queue_depth q = 0" "\<not> idle"
    | (emit) "iv_queue_depth q > 0" "idle"
    | (skip) "\<not> (iv_queue_depth q = 0 \<and> \<not> idle)" "\<not> (iv_queue_depth q > 0 \<and> idle)"
    by auto
  then show ?case
  proof cases
    case start
    then have eq: "idle_scan (q # qs) idle s [] = idle_scan qs True (iv_end q) []"
      by (simp add: Let_def)
    have "True \<longrightarrow> lo \<le> iv_end q" using q by simp
    from Cons.IH [OF sorted ends range this] show ?thesis
      unfolding eq .
  next
    case emit
    let ?x = "Interval2 s (iv_start q)"
    have "idle_scan (q # qs) idle s [] = idle_scan qs False s [?x]"
      using emit by (simp add: Let_def)
    then have eq: "idle_scan (q # qs) idle s [] = ?x # idle_scan qs False s []"
      using idle_scan_acc [of qs False s "[?x]"] by simp
    have range': "\<forall>r \<in> set qs. iv_start q \<le> iv_start r \<and> iv_start r \<le> hi"
      using after range by simp
    have "False \<longrightarrow> iv_start q \<le> s" by simp
    from Cons.IH [OF sorted ends range' this]
    have ih: "pairwise_disjoint (idle_scan qs False s [])"
      "\<forall>y \<in> set (idle_scan qs False s []). iv_start q \<le> iv_start y \<and> iv_end y \<le> hi"
      by simp_all
    have "\<forall>y \<in> set (idle_scan qs False s []). \<not> overlapping ?x y"
      using ih(2) by (auto intro!: before_not_overlapping simp: Interval2_def)
    moreover have "lo \<le> iv_start ?x \<and> iv_end ?x \<le> hi"
      using Cons.prems(4) emit q by (simp add: Interval2_def)
    moreover have "\<forall>y \<in> set (idle_scan qs False s []). lo \<le> iv_start y \<and> iv_end y \<le> hi"
      using ih(2) q by auto
    ultimately show ?thesis
      using ih(1) unfolding eq by simp
  next
    case skip
    then have eq: "idle_scan (q # qs) idle s [] = idle_scan qs idle s []"
      by (auto simp: Let_def)
    from Cons.IH [OF sorted ends range Cons.prems(4)] show ?thesis
      unfolding eq .
  qed
qed


fun is_device :: "any_event \<Rightarrow> bool" where
  "is_device (Device e) = True"
| "is_device (Tree e) = False"

lemma sweep_timeline:
  "sweep ks km es cur sp qdl m = Inr (qdl', m') \<Longrightarrow>
   \<exists>new. qdl' = qdl @ new \<and>
     map iv_start new = map new_old_event_comparator (filter is_device es) \<and>
     (\<forall>q \<in> set new. \<exists>e. Device e \<in> set es \<and> iv_start q = start_us e * 1000 \<and>
        iv_end q = (start_us e + duration_us e) * 1000)"
proof (induction ks km es cur sp qdl m rule: sweep.induct)
  case (1 ks km cur sp qdl m)
  then show ?case by simp
next
  case (2 ks km event es cur sp qdl m)
  let ?sp = "case km (obj event) of Some (Some i) \<Rightarrow> int i | _ \<Rightarrow> sp"
  let ?cur = "advance ks cur (start_us event * 1000)"
  let ?iv = "Interval (start_us event * 1000) ((start_us event + duration_us event) * 1000)
      (max (?sp - int ?cur + 1) 0)"
  have run: "sweep ks km es ?cur ?sp (qdl @ [?iv]) m = Inr (qdl', m')"
    using "2.prems" by (simp add: Let_def)
  from "2.IH" [OF refl refl refl refl refl run] obtain new where
    new: "qdl' = (qdl @ [?iv]) @ new"
      "map iv_start new = map new_old_event_comparator (filter is_device es)"
      "\<forall>q \<in> set new. \<exists>e. Device e \<in> set es \<and> iv_start q = start_us e * 1000 \<and>
        iv_end q = (start_us e + duration_us e) * 1000"
    by blast
  have "qdl' = qdl @ (?iv # new)" using new(1) by simp
  moreover have "map iv_start (?iv # new) =
      map new_old_event_comparator (filter is_device (Device event # es))"
    using new(2) by (simp add: Interval_def)
  moreover have "\<forall>q \<in> set (?iv # new). \<exists>e. Device e \<in> set (Device event # es) \<and>
      iv_start q = start_us e * 1000 \<and> iv_end q = (start_us e + duration_us e) * 1000"
    using new(3) by (auto simp: Interval_def)
  ultimately show ?case by blast
next
  case (3 ks km event es cur sp qdl m)
  from "3.prems" obtain v where v: "metrics_get m event = Some v"
    by (auto simp: Let_def split: option.splits)
  let ?cur = "advance ks cur (start_time_ns event)"
  have run: "sweep ks km es ?cur sp qdl
      (metrics_set m event (v\<lparr>queue_depth := max (sp - int ?cur + 1) 0\<rparr>)) = Inr (qdl', m')"
    using "3.prems" by (simp add: Let_def v)
  from "3.IH" [OF refl refl refl v run] obtain new where
    new: "qdl' = qdl @ new"
      "map iv_start new = map new_old_event_comparator (filter is_device es)"
      "\<forall>q \<in> set new. \<exists>e. Device e \<in> set es \<and> iv_start q = start_us e * 1000 \<and>
        iv_end q = (start_us e + duration_us e) * 1000"
    by blast
  have "\<forall>q \<in> set new. \<exists>e. Device e \<in> set (Tree event # es) \<and>
      iv_start q = start_us e * 1000 \<and> iv_end q = (start_us e + duration_us e) * 1000"
    using new(3) by auto
  with new(1,2) show ?case by auto
qed

lemma Device_in_all_events:
  "Device e \<in> set (all_events_of evs events) \<Longrightarrow> e \<in> set evs"
  by (auto simp: all_events_of_def mlu_launch_events_of_def mlu_kernel_events_of_def)

lemma sorted_hd_last:
  "sorted (map f xs) \<Longrightarrow> x \<in> set xs \<Longrightarrow> f (hd xs) \<le> f x \<and> f x \<le> f (last xs)"
proof (induction xs)
  case Nil
  then show ?case by simp
next
  case (Cons a xs)
  then show ?case by (cases "xs = []") auto
qed

lemma overlapping_commute: "overlapping a b = overlapping b a"
  by (auto simp: overlapping_def)

lemma queue_depth_list_timeline:
  assumes kr: "kineto_results prof = Some kr"
    and durations: "\<forall>e \<in> set (kr_events kr). 0 \<le> duration_us e"
    and run: "compute_queue_depth prof events m = Inr (mlu_events, qdl, m')"
  shows "sorted (map iv_start qdl) \<and> (\<forall>q \<in> set qdl. iv_start q \<le> iv_end q)"
proof -
  let ?ks = "mlu_kernel_events_of (kr_events kr)"
  let ?km = "fst (correlate ?ks (mlu_launch_events_of (kr_events kr)) Map.empty 0)"
  let ?es = "all_events_of (kr_events kr) events"
  from run kr have "sweep ?ks ?km ?es 0 (- 1) [] m = Inr (qdl, m')"
    by (auto simp: compute_queue_depth_def Let_def split: sum.splits)
  from sweep_timeline [OF this] have
    starts: "map iv_start qdl = map new_old_event_comparator (filter is_device ?es)"
    and each: "\<forall>q \<in> set qdl. \<exists>e. Device e \<in> set ?es \<and> iv_start q = start_us e * 1000 \<and>
        iv_end q = (start_us e + duration_us e) * 1000"
    by auto
  have "sorted (map new_old_event_comparator ?es)"
    unfolding all_events_of_def by (rule sorted_sort_key)
  then have "sorted (map new_old_event_comparator (filter is_device ?es))"
    by (rule sorted_filter)
  then have 1: "sorted (map iv_start qdl)" by (simp only: starts)
  have 2: "iv_start q \<le> iv_end q" if "q \<in> set qdl" for q
  proof -
    from each that obtain e where e: "Device e \<in> set ?es" "iv_start q = start_us e * 1000"
      "iv_end q = (start_us e + duration_us e) * 1000"
      by blast
    from e(1) have "e \<in> set (kr_events kr)" by (rule Device_in_all_events)
    with durations have "0 \<le> duration_us e" by blast
    with e(2,3) show ?thesis by simp
  qed
  from 1 2 show ?thesis by blast
qed

text \<open>
  Claim C6, as amended. When no device event has a negative duration, the idle intervals
  that \<open>compute_idle_time\<close> builds from the timeline of \<open>compute_queue_depth\<close> are
  pairwise disjoint.
\<close>

theorem idle_intervals_disjoint:
  assumes kr: "kineto_results prof = Some kr"
    and durations: "\<forall>e \<in> set (kr_events kr). 0 \<le> duration_us e"
    and run: "compute_queue_depth prof events m = Inr (mlu_events, qdl, m')"
  shows "pairwise_disjoint (idle_intervals_of qdl events)"
proof (cases "qdl = []")
  case True
  then show ?thesis
    by (simp add: idle_intervals_of_def boundary_intervals_def)
next
  case False
  let ?lo = "iv_start (hd qdl)"
  let ?hi = "iv_start (last qdl)"
  let ?scan = "idle_scan qdl False 0 []"
  from queue_depth_list_timeline [OF kr durations run]
  have sorted: "sorted (map iv_start qdl)" and ends: "\<forall>q \<in> set qdl. iv_start q \<le> iv_end q"
    by simp_all
  have range: "\<forall>q \<in> set qdl. ?lo \<le> iv_start q \<and> iv_start q \<le> ?hi"
    using sorted_hd_last [OF sorted] by blast
  have "False \<longrightarrow> ?lo \<le> 0" by simp
  from idle_scan_disjoint [OF sorted ends range this]
  have scan: "pairwise_disjoint ?scan"
    and within: "\<forall>x \<in> set ?scan. ?lo \<le> iv_start x \<and> iv_end x \<le> ?hi"
    by simp_all
  show ?thesis
  proof (cases "events = []")
    case True
    then show ?thesis
      using scan by (simp add: idle_intervals_of_def boundary_intervals_def)
  next
    case nonempty: False
    let ?seed1 = "Interval2 (start_time_ns (hd events)) ?lo"
    let ?seed2 = "Interval2 (iv_end (last qdl)) (end_time_ns (last events))"
    have eq: "idle_intervals_of qdl events = ?seed1 # ?seed2 # ?scan"
      using False nonempty idle_scan_acc [of qdl False 0 "[?seed1, ?seed2]"]
      by (simp add: idle_intervals_of_def boundary_intervals_def)
    have last_end: "?hi \<le> iv_end (last qdl)"
      using ends False by simp
    have lo_hi: "?lo \<le> ?hi"
      using range False by (meson last_in_set)
    have "\<not> overlapping ?seed1 ?seed2"
      using lo_hi last_end by (intro before_not_overlapping) (simp add: Interval2_def)
    moreover have "\<forall>y \<in> set ?scan. \<not> overlapping ?seed1 y"
      using within by (auto intro!: before_not_overlapping simp: Interval2_def)
    moreover have "\<forall>y \<in> set ?scan. \<not> overlapping ?seed2 y"
    proof
      fix y assume "y \<in> set ?scan"
      with within last_end have "iv_end y \<le> iv_start ?seed2"
        by (auto simp: Interval2_def)
      then have "\<not> overlapping y ?seed2" by (rule before_not_overlapping)
      then show "\<not> overlapping ?seed2 y" using overlapping_commute [of ?seed2 y] by blast
    qed
    ultimately show ?thesis
      using scan unfolding eq by simp
  qed
qed

section \<open>Ranking\<close>

lemma length_slice_to:
  "0 \<le> n \<Longrightarrow> length (slice_to n xs) = min (nat n) (length xs)"
  by (simp add: slice_to_def)

lemma mset_take_subset: "mset (take k xs) \<subseteq># mset xs"
proof -
  have "mset xs = mset (take k xs) + mset (drop k xs)"
    by (simp flip: mset_append)
  then show ?thesis by simp
qed

lemma mset_slice_to: "mset (slice_to n xs) \<subseteq># mset xs"
  by (simp add: slice_to_def mset_take_subset)

lemma length_div_each: "div_each ops xs sd = Inr qs \<Longrightarrow> length qs = length xs"
  by (induction xs arbitrary: qs) (auto split: sum.splits)

lemma length_standardize: "standardize ops x = Inr y \<Longrightarrow> length y = length x"
  by (auto simp: standardize_def split: sum.splits dest: length_div_each)

lemma length_heuristic_score_list:
  "heuristic_score_list ops event_list = Inr scores \<Longrightarrow> length scores = length event_list"
  by (auto simp: heuristic_score_list_def Let_def split: sum.splits dest!: length_standardize)

lemma mset_insert_reverse: "mset (insert_reverse lt x ys) = add_mset x (mset ys)"
  by (induction ys) auto

lemma mset_sorted_reverse: "mset (sorted_reverse lt xs) = mset xs"
  by (induction xs) (auto simp: sorted_reverse_def mset_insert_reverse)

lemma mset_sorted_events:
  assumes "length scores = length events"
  shows "mset (map snd (sorted_reverse lt (zip scores events))) = mset events"
proof -
  have "mset (map snd (sorted_reverse lt (zip scores events))) =
        image_mset snd (mset (sorted_reverse lt (zip scores events)))"
    by simp
  also have "\<dots> = image_mset snd (mset (zip scores events))"
    by (simp only: mset_sorted_reverse)
  also have "\<dots> = mset (map snd (zip scores events))"
    by simp
  also have "\<dots> = mset events"
    using assms by simp
  finally show ?thesis .
qed

lemma standardize_mean_raises:
  "torch_mean ops x = Inl err \<Longrightarrow> standardize ops x = Inl err"
  by (simp add: standardize_def)

lemma standardize_std_raises:
  "torch_mean ops x = Inr mu \<Longrightarrow> torch_std ops x = Inl err \<Longrightarrow> standardize ops x = Inl err"
  by (simp add: standardize_def)

lemma rank_events_nonempty:
  "event_list_of self \<noteq> [] \<Longrightarrow>
   rank_events ops self n =
     (case heuristic_score_list ops (event_list_of self) of
        Inl err \<Rightarrow> Inl err
      | Inr scores \<Rightarrow>
          Inr (slice_to n (map snd (sorted_reverse (tensor_lt ops)
                 (zip scores (map fst (event_list_of self)))))))"
  by (simp add: rank_events_def Let_def)

text \<open>
  Claim C7, as amended. Whatever the \<open>torch\<close> operations do: when no event survives the
  filter, \<open>rank_events\<close> returns the empty list, so it runs none of them. When some event
  survives, also a single one or several of equal metrics, the
  standardization is run: an error of \<open>torch.mean\<close> or of \<open>torch.std\<close> on the sample of
  idle fractions leaves \<open>rank_events\<close>, as every error of the scoring does; when the
  scoring returns, the result consists of survivors, \<open>min length n\<close> of the \<open>n\<close> survivors
  for \<open>length \<ge> 0\<close>; and for \<open>length \<ge> 1\<close> the result is never the empty list.
\<close>

theorem rank_events_guards_only_empty:
  "(event_list_of self = [] \<longrightarrow> rank_events ops self n = Inr []) \<and>
   (event_list_of self \<noteq> [] \<longrightarrow>
      (torch_mean ops (map (\<lambda>(event, v). fraction_idle_time ops v) (event_list_of self)) =
         Inl err \<longrightarrow> rank_events ops self n = Inl err) \<and>
      (torch_mean ops (map (\<lambda>(event, v). fraction_idle_time ops v) (event_list_of self)) =
         Inr mu \<and>
       torch_std ops (map (\<lambda>(event, v). fraction_idle_time ops v) (event_list_of self)) =
         Inl err \<longrightarrow> rank_events ops self n = Inl err) \<and>
      (heuristic_score_list ops (event_list_of self) = Inl err \<longrightarrow>
         rank_events ops self n = Inl err) \<and>
      (heuristic_score_list ops (event_list_of self) = Inr scores \<longrightarrow>
         (\<exists>r. rank_events ops self n = Inr r \<and>
              mset r \<subseteq># mset (map fst (event_list_of self)) \<and>
              (0 \<le> n \<longrightarrow> length r = min (nat n) (length (event_list_of self))))) \<and>
      (1 \<le> n \<longrightarrow> rank_events ops self n \<noteq> Inr []))"
proof (intro conjI impI)
  assume "event_list_of self = []"
  then show "rank_events ops self n = Inr []"
    by (simp add: rank_events_def)
next
  assume ne: "event_list_of self \<noteq> []"
    and "torch_mean ops (map (\<lambda>(event, v). fraction_idle_time ops v) (event_list_of self)) =
      Inl err"
  then have "heuristic_score_list ops (event_list_of self) = Inl err"
    by (simp add: heuristic_score_list_def Let_def standardize_mean_raises)
  then show "rank_events ops self n = Inl err"
    by (simp add: rank_events_nonempty [OF ne])
next
  assume ne: "event_list_of self \<noteq> []"
    and "torch_mean ops (map (\<lambda>(event, v). fraction_idle_time ops v) (event_list_of self)) =
        Inr mu \<and>
      torch_std ops (map (\<lambda>(event, v). fraction_idle_time ops v) (event_list_of self)) =
        Inl err"
  then have "heuristic_score_list ops (event_list_of self) = Inl err"
    by (simp add: heuristic_score_list_def Let_def standardize_std_raises)
  then show "rank_events ops self n = Inl err"
    by (simp add: rank_events_nonempty [OF ne])
next
  assume ne: "event_list_of self \<noteq> []"
    and "heuristic_score_list ops (event_list_of self) = Inl err"
  then show "rank_events ops self n = Inl err"
    by (simp add: rank_events_nonempty [OF ne])
next
  assume ne: "event_list_of self \<noteq> []"
    and scores: "heuristic_score_list ops (event_list_of self) = Inr scores"
  let ?sorted = "map snd (sorted_reverse (tensor_lt ops)
      (zip scores (map fst (event_list_of self))))"
  have len: "length scores = length (map fst (event_list_of self))"
    using length_heuristic_score_list [OF scores] by simp
  have perm: "mset ?sorted = mset (map fst (event_list_of self))"
    using len by (rule mset_sorted_events)
  have run: "rank_events ops self n = Inr (slice_to n ?sorted)"
    by (simp add: rank_events_nonempty [OF ne] scores)
  have sub: "mset (slice_to n ?sorted) \<subseteq># mset (map fst (event_list_of self))"
    using mset_slice_to [of n ?sorted] by (simp only: perm)
  have "length ?sorted = length (event_list_of self)"
    using mset_eq_length [OF perm] by simp
  then have "0 \<le> n \<longrightarrow> length (slice_to n ?sorted) = min (nat n) (length (event_list_of self))"
    by (simp add: length_slice_to)
  with run sub show "\<exists>r. rank_events ops self n = Inr r \<and>
      mset r \<subseteq># mset (map fst (event_list_of self)) \<and>
      (0 \<le> n \<longrightarrow> length r = min (nat n) (length (event_list_of self)))"
    by blast
next
  assume ne: "event_list_of self \<noteq> []" and n: "1 \<le> n"
  show "rank_events ops self n \<noteq> Inr []"
  proof (cases "heuristic_score_list ops (event_list_of self)")
    case (Inl e)
    then show ?thesis by (simp add: rank_events_nonempty [OF ne])
  next
    case (Inr sc)
    let ?sorted = "map snd (sorted_reverse (tensor_lt ops)
        (zip sc (map fst (event_list_of self))))"
    have len: "length sc = length (map fst (event_list_of self))"
      using length_heuristic_score_list [OF Inr] by simp
    have "mset ?sorted = mset (map fst (event_list_of self))"
      using len by (rule mset_sorted_events)
    from mset_eq_length [OF this] have "length ?sorted = length (event_list_of self)"
      by simp
    with ne n have "length (slice_to n ?sorted) \<noteq> 0"
      by (simp add: length_slice_to)
    then have "slice_to n ?sorted \<noteq> []" by simp
    then show ?thesis by (simp add: rank_events_nonempty [OF ne] Inr)
  qed
qed

section \<open>Example traces\<close>

definition example_dflt :: event_metrics where
  "example_dflt = \<lparr>duration_time_ns = 0, self_time_ns = 0, idle_time_ns = 0, queue_depth = 0\<rparr>"

definition example_child :: event where
  "example_child = Event 2 ''aten::mul'' 10 40 30 []"

definition example_root :: event where
  "example_root = Event 1 ''aten::add'' 0 100 100 [example_child]"

definition example_tree :: kineto_results where
  "example_tree = \<lparr>experimental_event_tree = [example_root], kr_events = []\<rparr>"

definition example_dup_tree :: kineto_results where
  "example_dup_tree =
     \<lparr>experimental_event_tree = [Event 1 ''aten::add'' 0 100 100 [Event 1 ''aten::mul'' 10 40 30 []]],
      kr_events = []\<rparr>"

definition example_launch :: kineto_event where
  "example_launch = \<lparr>obj = 0, k_name = ''cnInvokeKernel'', device_type = CPU,
     start_us = 10, duration_us = 1, linked_correlation_id = 1\<rparr>"

definition example_kernel :: kineto_event where
  "example_kernel = \<lparr>obj = 1, k_name = ''MLUOpKernel'', device_type = MLU,
     start_us = 12, duration_us = 3, linked_correlation_id = 1\<rparr>"

definition example_orphan :: kineto_event where
  "example_orphan = \<lparr>obj = 2, k_name = ''cnInvokeKernel'', device_type = CPU,
     start_us = 11, duration_us = 1, linked_correlation_id = 7\<rparr>"

definition example_op :: event where
  "example_op = Event 2 ''aten::mul'' 10500 11500 1000 []"

definition example_step :: event where
  "example_step = Event 1 ''ProfilerStep'' 9000 20000 11000 [example_op]"

definition example_trace :: kineto_results where
  "example_trace = \<lparr>experimental_event_tree = [example_step],
     kr_events = [example_launch, example_kernel]\<rparr>"

lemma example_tree_events: "tree_events example_tree = [example_root, example_child]"
  by (simp add: tree_events_def example_tree_def example_root_def example_child_def
      subtree.simps)

theorem self_time_sums_to_duration_witness:
  "\<exists>m. compute_self_time example_dflt \<lparr>kineto_results = Some example_tree\<rparr> [] = Inr m \<and>
    (\<forall>e \<in> set [example_root, example_child]. \<exists>v. metrics_get m e = Some v \<and>
        self_time_ns v =
          ev_duration_time_ns e - sum_list (map ev_duration_time_ns (children e))) \<and>
    sum_list (map (\<lambda>x. self_time_ns (the (metrics_get m x))) (subtree example_root)) = 100"
proof -
  have d: "distinct (map ev_id (tree_events example_tree))"
    by (simp add: example_tree_events example_root_def example_child_def)
  have n: "example_root \<in> set (tree_events example_tree)"
    by (simp add: example_tree_events)
  have "ev_duration_time_ns example_root = 100"
    by (simp add: example_root_def)
  with self_time_sums_to_duration [OF _ d n, of "\<lparr>kineto_results = Some example_tree\<rparr>" example_dflt]
  show ?thesis by (simp add: example_tree_events)
qed

theorem duplicate_id_aborts_witness:
  "compute_self_time example_dflt \<lparr>kineto_results = Some example_dup_tree\<rparr> [] =
     Inl (Duplicate_id 1 ''aten::mul'') \<and>
   (\<exists>m. compute_self_time example_dflt \<lparr>kineto_results = Some example_tree\<rparr> [] = Inr m \<and>
      distinct (map (ev_id \<circ> fst) m) \<and> mset (map fst m) = mset [example_root, example_child])"
proof -
  have seq: "visit_sequence example_dup_tree =
      [Event 1 ''aten::add'' 0 100 100 [Event 1 ''aten::mul'' 10 40 30 []],
       Event 1 ''aten::mul'' 10 40 30 []]"
    by (simp add: visit_sequence_def example_dup_tree_def visit_order.simps)
  have "\<not> distinct (map ev_id (tree_events example_dup_tree))"
    by (simp add: tree_events_def example_dup_tree_def subtree.simps)
  with duplicate_id_aborts [of "\<lparr>kineto_results = Some example_dup_tree\<rparr>" example_dup_tree example_dflt]
  obtain pre e post where
    *: "visit_sequence example_dup_tree = pre @ e # post" "ev_id e \<in> ev_id ` set pre"
      "compute_self_time example_dflt \<lparr>kineto_results = Some example_dup_tree\<rparr> [] =
         Inl (Duplicate_id (ev_id e) (ev_name e))"
    by auto
  from *(1,2) have "pre \<noteq> []" by auto
  with *(1) have "e = Event 1 ''aten::mul'' 10 40 30 []"
    unfolding seq by (cases pre; cases "tl pre") auto
  with *(3) have 1: "compute_self_time example_dflt \<lparr>kineto_results = Some example_dup_tree\<rparr> [] =
     Inl (Duplicate_id 1 ''aten::mul'')"
    by simp
  obtain m where run:
    "compute_self_time example_dflt \<lparr>kineto_results = Some example_tree\<rparr> [] = Inr m"
    by (simp add: compute_self_time_def example_tree_def example_root_def example_child_def
        key_in_def)
  with duplicate_id_aborts [of "\<lparr>kineto_results = Some example_tree\<rparr>" example_tree example_dflt]
  have "distinct (map (ev_id \<circ> fst) m) \<and> mset (map fst m) = mset [example_root, example_child]"
    by (simp add: example_tree_events)
  with 1 run show ?thesis by blast
qed

theorem compute_self_time_frame_witness:
  "\<exists>m. compute_self_time example_dflt \<lparr>kineto_results = Some example_tree\<rparr> [] = Inr m \<and>
     (\<forall>e \<in> set [example_root, example_child]. \<exists>v. metrics_get m e = Some v \<and>
               idle_time_ns v = 0 \<and> queue_depth v = 0)"
proof -
  let ?m = "[(example_root, \<lparr>duration_time_ns = 100, self_time_ns = 70, idle_time_ns = 0, queue_depth = 0\<rparr>),
             (example_child, \<lparr>duration_time_ns = 30, self_time_ns = 30, idle_time_ns = 0, queue_depth = 0\<rparr>)]"
  have run: "compute_self_time example_dflt \<lparr>kineto_results = Some example_tree\<rparr> [] = Inr ?m"
    by (simp add: compute_self_time_def example_tree_def example_root_def example_child_def
        example_dflt_def key_in_def EventMetrics_def)
  from compute_self_time_frame [OF _ run, of example_tree]
  have "\<forall>e \<in> set [example_root, example_child]. \<exists>v. metrics_get ?m e = Some v \<and>
               idle_time_ns v = 0 \<and> queue_depth v = 0"
    by (simp add: example_tree_events example_dflt_def)
  with run show ?thesis by blast
qed

lemma example_queue_depth_run:
  "compute_queue_depth \<lparr>kineto_results = Some example_trace\<rparr> [example_step, example_op]
     [(example_step, example_dflt), (example_op, example_dflt)] =
   Inr ([example_launch, example_kernel],
        [Interval 10000 11000 1, Interval 12000 15000 0],
        [(example_step, example_dflt), (example_op, example_dflt\<lparr>queue_depth := 1\<rparr>)])"
  by code_simp

theorem queue_depth_nonnegative_witness:
  "\<exists>mlu_events queue_depth_list m'.
     compute_queue_depth \<lparr>kineto_results = Some example_trace\<rparr> [example_step, example_op]
       [(example_step, example_dflt), (example_op, example_dflt)] =
       Inr (mlu_events, queue_depth_list, m') \<and>
     queue_depth_list \<noteq> [] \<and>
     (\<forall>iv \<in> set queue_depth_list. 0 \<le> iv_queue_depth iv) \<and>
     (\<forall>e \<in> set [example_step, example_op].
        \<exists>v. metrics_get m' e = Some v \<and> 0 \<le> queue_depth v)"
proof -
  have keys: "\<forall>e \<in> set [example_step, example_op].
      key_in e [(example_step, example_dflt), (example_op, example_dflt)]"
    by (simp add: key_in_def)
  let ?prof = "\<lparr>kineto_results = Some example_trace\<rparr>"
  let ?m = "[(example_step, example_dflt), (example_op, example_dflt)]"
  have "kineto_results ?prof \<noteq> None \<and>
      (\<forall>e \<in> set [example_step, example_op]. key_in e ?m)"
    using keys by simp
  with queue_depth_nonnegative [THEN conjunct1, of ?prof "[example_step, example_op]" ?m]
  obtain r where r: "compute_queue_depth ?prof [example_step, example_op] ?m = Inr r"
    by blast
  obtain mlu_events queue_depth_list m' where "r = (mlu_events, queue_depth_list, m')"
    by (cases r) auto
  with r have run: "compute_queue_depth ?prof [example_step, example_op] ?m =
      Inr (mlu_events, queue_depth_list, m')"
    by simp
  then have "queue_depth_list \<noteq> []"
    by (auto simp: example_queue_depth_run)
  moreover from run queue_depth_nonnegative [THEN conjunct2,
      of ?prof "[example_step, example_op]" ?m mlu_events queue_depth_list m']
  have "(\<forall>iv \<in> set queue_depth_list. 0 \<le> iv_queue_depth iv) \<and>
     (\<forall>e \<in> set [example_step, example_op].
        \<exists>v. metrics_get m' e = Some v \<and> 0 \<le> queue_depth v)"
    by blast
  ultimately show ?thesis using run by blast
qed

theorem unmatched_launch_no_index_witness:
  "correlate [example_kernel] ([example_launch] @ [example_orphan]) Map.empty 0 =
     ([obj example_launch \<mapsto> Some 0, obj example_orphan \<mapsto> None], 0) \<and>
   fst (correlate [example_kernel] ([example_launch] @ example_orphan # []) Map.empty 0)
     (obj example_orphan) = Some None \<and>
   sweep [example_kernel]
     (fst (correlate [example_kernel] ([example_launch] @ example_orphan # []) Map.empty 0))
     [Device example_orphan] 0 0 [Interval 10000 11000 1] [] =
   Inr ([Interval 10000 11000 1, Interval 11000 12000 1], [])"
proof -
  have before: "correlate [example_kernel] [example_launch] Map.empty 0 =
      ([obj example_launch \<mapsto> Some 0], 0)"
    by (simp add: index_of_first_match_def example_kernel_def example_launch_def)
  have nomatch: "\<forall>i. 0 \<le> i \<and> i < length [example_kernel] \<longrightarrow>
      linked_correlation_id ([example_kernel] ! i) \<noteq> linked_correlation_id example_orphan"
    by (simp add: example_kernel_def example_orphan_def)
  have later: "obj example_orphan \<notin> obj ` set []"
    by simp
  have adv: "advance [example_kernel] 0 (start_us example_orphan * 1000) = 0"
    by (simp add: advance.simps example_kernel_def example_orphan_def)
  from unmatched_launch_no_index [OF before nomatch later refl, of "[]" 0 0 "[Interval 10000 11000 1]" "[]"]
  show ?thesis
    by (simp add: adv) (simp add: example_orphan_def)
qed

theorem launch_then_kernel_queue_depth_witness:
  "\<exists>mlu_events m'.
      compute_queue_depth \<lparr>kineto_results = Some example_trace\<rparr> [example_step, example_op]
        [(example_step, example_dflt), (example_op, example_dflt)] =
        Inr (mlu_events, [Interval 10000 11000 1, Interval 12000 15000 0], m') \<and>
      (\<exists>v. metrics_get m' example_step = Some v \<and> queue_depth v = 0) \<and>
      (\<exists>v. metrics_get m' example_op = Some v \<and> queue_depth v = 1)"
proof -
  have launches: "filter is_mlu_launch_kernel (kr_events example_trace) = [example_launch]"
    by code_simp
  have kernels: "filter is_mlu_kernel (kr_events example_trace) = [example_kernel]"
    by code_simp
  have keys: "\<forall>e \<in> set [example_step, example_op].
      key_in e [(example_step, example_dflt), (example_op, example_dflt)]"
    by (simp add: key_in_def)
  have ids: "distinct (map ev_id [example_step, example_op])"
    by (simp add: example_step_def example_op_def)
  have starts: "start_time_ns example_step = 9000" "start_time_ns example_op = 10500"
    by (simp_all add: example_step_def example_op_def)
  from launch_then_kernel_queue_depth [OF _ launches kernels _ _ _ _ _ keys ids,
      of "\<lparr>kineto_results = Some example_trace\<rparr>"]
  show ?thesis
    by (simp add: example_launch_def example_kernel_def starts)
qed

text \<open>
  Claim C5 as stated fails: the run of depth 0 that starts at 0 and is followed by depth 1
  at 10 yields the idle interval from 5, the end of its first interval, not from 0; and
  a run that ends the list yields no idle interval.
\<close>

theorem idle_run_start_counterexample:
  "idle_intervals_of [Interval 0 5 0, Interval 10 20 1] [] = [Interval2 5 10] \<and>
   Interval2 0 10 \<notin> set (idle_intervals_of [Interval 0 5 0, Interval 10 20 1] []) \<and>
   idle_intervals_of [Interval 10 20 1, Interval 30 40 0] [] = []"
  by (simp add: idle_intervals_of_def boundary_intervals_def Interval_def Interval2_def)

theorem idle_interval_of_zero_run_witness:
  "idle_scan ([Interval 0 1 2] @ [Interval 2 5 0, Interval 6 7 0] @ Interval 10 20 1 # [])
     False 0 [] = [Interval2 5 10] \<and>
   idle_scan ([Interval 0 1 2] @ [Interval 2 5 0, Interval 6 7 0]) False 0 [] = []"
  using idle_interval_of_zero_run [of "[Interval 0 1 2]" "Interval 2 5 0" "[Interval 6 7 0]"
      "Interval 10 20 1" "[]" 0 "[]"]
  by (simp add: Interval_def)

definition positive_depth :: "interval \<Rightarrow> bool" where
  "positive_depth d = (iv_queue_depth d > 0)"

text \<open>
  Claim C6 as stated fails on the example trace: the time 13000 lies in the range of the
  device timeline, from 10000 to 15000, and in no idle interval and in no interval of
  positive depth.
\<close>

theorem idle_cover_counterexample:
  "compute_queue_depth \<lparr>kineto_results = Some example_trace\<rparr> [example_step, example_op]
     [(example_step, example_dflt), (example_op, example_dflt)] =
   Inr ([example_launch, example_kernel],
        [Interval 10000 11000 1, Interval 12000 15000 0],
        [(example_step, example_dflt), (example_op, example_dflt\<lparr>queue_depth := 1\<rparr>)]) \<and>
   idle_intervals_of [Interval 10000 11000 1, Interval 12000 15000 0]
     [example_step, example_op] = [Interval2 9000 10000, Interval2 15000 11500] \<and>
   time_in 13000 (Interval2 10000 15000) \<and>
   \<not> list_ex (time_in 13000)
     (idle_intervals_of [Interval 10000 11000 1, Interval 12000 15000 0]
        [example_step, example_op] @
      filter positive_depth [Interval 10000 11000 1, Interval 12000 15000 0])"
proof -
  have idle: "idle_intervals_of [Interval 10000 11000 1, Interval 12000 15000 0]
     [example_step, example_op] = [Interval2 9000 10000, Interval2 15000 11500]"
    by (simp add: idle_intervals_of_def boundary_intervals_def Interval_def Interval2_def
        example_step_def example_op_def)
  show ?thesis
    unfolding idle
    by (simp add: example_queue_depth_run)
      (simp add: time_in_def positive_depth_def Interval_def Interval2_def)
qed

theorem idle_intervals_disjoint_witness:
  "pairwise_disjoint
     (idle_intervals_of [Interval 10000 11000 1, Interval 12000 15000 0]
        [example_step, example_op]) \<and>
   idle_intervals_of [Interval 10000 11000 1, Interval 12000 15000 0]
     [example_step, example_op] \<noteq> []"
proof -
  have durations: "\<forall>e \<in> set (kr_events example_trace). 0 \<le> duration_us e"
    by (simp add: example_trace_def example_launch_def example_kernel_def)
  have "pairwise_disjoint
     (idle_intervals_of [Interval 10000 11000 1, Interval 12000 15000 0]
        [example_step, example_op])"
    using idle_intervals_disjoint [OF _ durations example_queue_depth_run] by simp
  then show ?thesis
    by (simp add: idle_intervals_of_def boundary_intervals_def)
qed

definition example_mlu_kernel :: "nat \<Rightarrow> int \<Rightarrow> int \<Rightarrow> kineto_event" where
  "example_mlu_kernel i t c = \<lparr>obj = i, k_name = ''MLUOpKernel'', device_type = MLU,
     start_us = t, duration_us = 1, linked_correlation_id = c\<rparr>"

definition example_burst :: kineto_results where
  "example_burst =
     \<lparr>experimental_event_tree = [Event 1 ''aten::conv2d'' 9000 30000 21000 []],
      kr_events =
        [\<lparr>obj = 0, k_name = ''cnInvokeKernel'', device_type = CPU,
           start_us = 10, duration_us = 1, linked_correlation_id = 4\<rparr>,
         example_mlu_kernel 1 20 1, example_mlu_kernel 2 21 2,
         example_mlu_kernel 3 22 3, example_mlu_kernel 4 23 4]\<rparr>"

definition example_burst_state :: basic_evaluation where
  "example_burst_state =
     \<lparr>self_profile = \<lparr>kineto_results = Some example_burst\<rparr>,
      self_metrics =
        [(Event 1 ''aten::conv2d'' 9000 30000 21000 [],
          \<lparr>duration_time_ns = 21000, self_time_ns = 21000, idle_time_ns = 7000,
             queue_depth = 0\<rparr>)],
      self_event_keys = [Event 1 ''aten::conv2d'' 9000 30000 21000 []],
      self_events = [Event 1 ''aten::conv2d'' 9000 30000 21000 []],
      self_mlu_events = kr_events example_burst,
      self_queue_depth_list =
        [Interval 10000 11000 4, Interval 20000 21000 3, Interval 21000 22000 2,
         Interval 22000 23000 1, Interval 23000 24000 0]\<rparr>"

lemma example_burst_init:
  "init example_dflt \<lparr>kineto_results = Some example_burst\<rparr> = Inr example_burst_state"
  by code_simp

lemma example_burst_survivors:
  "event_list_of example_burst_state =
     [(Event 1 ''aten::conv2d'' 9000 30000 21000 [],
       \<lparr>duration_time_ns = 21000, self_time_ns = 21000, idle_time_ns = 7000,
          queue_depth = 0\<rparr>)]"
  by code_simp

definition example_trace_state :: basic_evaluation where
  "example_trace_state =
     \<lparr>self_profile = \<lparr>kineto_results = Some example_trace\<rparr>,
      self_metrics =
        [(example_step,
          \<lparr>duration_time_ns = 11000, self_time_ns = 10000, idle_time_ns = 1000,
             queue_depth = 0\<rparr>),
         (example_op,
          \<lparr>duration_time_ns = 1000, self_time_ns = 1000, idle_time_ns = 0,
             queue_depth = 1\<rparr>)],
      self_event_keys = [example_step, example_op],
      self_events = [example_step, example_op],
      self_mlu_events = [example_launch, example_kernel],
      self_queue_depth_list = [Interval 10000 11000 1, Interval 12000 15000 0]\<rparr>"

lemma example_trace_init:
  "init example_dflt \<lparr>kineto_results = Some example_trace\<rparr> = Inr example_trace_state"
  by code_simp

lemma example_trace_survivors: "event_list_of example_trace_state = []"
  by code_simp

text \<open>
  Two choices of the \<open>torch\<close> operations. With \<open>example_nan_ops\<close> nothing raises and no
  two scores compare, as when every score is \<open>nan\<close> (the scores of a sample of one
  element); with \<open>example_raising_ops\<close> the mean, the deviation and the division raise.
\<close>

definition example_nan_ops :: "unit torch_ops" where
  "example_nan_ops =
     \<lparr>torch_tensor = (\<lambda>i. ()), fraction_idle_time = (\<lambda>v. ()),
      torch_mean = (\<lambda>x. Inr ()), torch_std = (\<lambda>x. Inr ()),
      torch_sub = (\<lambda>a b. ()), torch_div = (\<lambda>a b. Inr ()),
      torch_add_scaled = (\<lambda>a b. ()), tensor_lt = (\<lambda>a b. False)\<rparr>"

definition example_raising_ops :: "unit torch_ops" where
  "example_raising_ops =
     \<lparr>torch_tensor = (\<lambda>i. ()), fraction_idle_time = (\<lambda>v. ()),
      torch_mean = (\<lambda>x. Inl Torch_error), torch_std = (\<lambda>x. Inl Torch_error),
      torch_sub = (\<lambda>a b. ()), torch_div = (\<lambda>a b. Inl Torch_error),
      torch_add_scaled = (\<lambda>a b. ()), tensor_lt = (\<lambda>a b. False)\<rparr>"

text \<open>
  Claim C7 as stated fails: on the trace \<open>example_burst\<close> one event survives, and
  \<open>rank_events(1)\<close> returns it when the operations raise nothing, and passes their error
  on when they raise; it returns the empty list in neither case.
\<close>

theorem rank_events_single_survivor_counterexample:
  "init example_dflt \<lparr>kineto_results = Some example_burst\<rparr> = Inr example_burst_state \<and>
   length (event_list_of example_burst_state) = 1 \<and>
   rank_events example_nan_ops example_burst_state 1 =
     Inr [Event 1 ''aten::conv2d'' 9000 30000 21000 []] \<and>
   rank_events example_raising_ops example_burst_state 1 = Inl Torch_error"
  by (simp add: example_burst_init example_burst_survivors rank_events_def slice_to_def
      heuristic_score_list_def standardize_def sorted_reverse_def
      example_nan_ops_def example_raising_ops_def)

theorem rank_events_guards_only_empty_witness:
  "event_list_of example_trace_state = [] \<and>
   rank_events example_raising_ops example_trace_state 1 = Inr [] \<and>
   event_list_of example_burst_state \<noteq> [] \<and>
   rank_events example_raising_ops example_burst_state 1 = Inl Torch_error \<and>
   (\<exists>r. rank_events example_nan_ops example_burst_state 1 = Inr r \<and>
        mset r \<subseteq># mset (map fst (event_list_of example_burst_state)) \<and> length r = 1) \<and>
   rank_events example_nan_ops example_burst_state 1 \<noteq> Inr []"
proof -
  from rank_events_guards_only_empty [of example_trace_state example_raising_ops 1]
  have 1: "rank_events example_raising_ops example_trace_state 1 = Inr []"
    by (simp add: example_trace_survivors)
  have ne: "event_list_of example_burst_state \<noteq> []"
    by (simp add: example_burst_survivors)
  have "torch_mean example_raising_ops
      (map (\<lambda>(event, v). fraction_idle_time example_raising_ops v)
         (event_list_of example_burst_state)) = Inl Torch_error"
    by (simp add: example_raising_ops_def)
  with ne rank_events_guards_only_empty
    [of example_burst_state example_raising_ops 1 Torch_error]
  have 2: "rank_events example_raising_ops example_burst_state 1 = Inl Torch_error"
    by blast
  have "heuristic_score_list example_nan_ops (event_list_of example_burst_state) = Inr [()]"
    by (simp add: example_burst_survivors heuristic_score_list_def standardize_def
        example_nan_ops_def)
  with ne rank_events_guards_only_empty
    [of example_burst_state example_nan_ops 1 _ _ "[()]"]
  have 3: "(\<exists>r. rank_events example_nan_ops example_burst_state 1 = Inr r \<and>
        mset r \<subseteq># mset (map fst (event_list_of example_burst_state)) \<and> length r = 1) \<and>
      rank_events example_nan_ops example_burst_state 1 \<noteq> Inr []"
    by (simp add: example_burst_survivors)
  from 1 2 3 ne show ?thesis
    by (simp add: example_trace_survivors)
qed

end
